theory Spec2Isabelle
  imports Main
begin

section \<open>JavaScript strings\<close>

text \<open>
  A JavaScript string is modelled as a \<open>string\<close>: a list of characters, one per code
  unit. Isabelle's \<open>char\<close> has 256 values, so the model covers the strings whose code
  units are below 256; \<open>length\<close> is then JavaScript's \<open>.length\<close>.
\<close>

definition newline :: char where
  "newline = CHR 0x0A"

definition backslash :: char where
  "backslash = CHR 0x5C"

definition dquote :: char where
  "dquote = CHR 0x22"

definition squote :: char where
  "squote = CHR 0x27"

text \<open>\<^verbatim>\<open>s.split(c)\<close> for a one-character separator: never empty, the pieces between
  the separators in order.\<close>

fun split :: "char \<Rightarrow> string \<Rightarrow> string list" where
  "split c [] = [[]]"
| "split c (x # xs) =
     (if x = c then [] # split c xs
      else (case split c xs of [] \<Rightarrow> [[x]] | piece # pieces \<Rightarrow> (x # piece) # pieces))"

text \<open>\<^verbatim>\<open>s.startsWith(p)\<close>, \<^verbatim>\<open>s.includes(p)\<close>, \<^verbatim>\<open>s.slice(0, -3)\<close>.\<close>

fun startsWith :: "string \<Rightarrow> string \<Rightarrow> bool" where
  "startsWith s [] = True"
| "startsWith [] (p # ps) = False"
| "startsWith (x # xs) (p # ps) = (x = p \<and> startsWith xs ps)"

fun str_includes :: "string \<Rightarrow> string \<Rightarrow> bool" where
  "str_includes [] p = (p = [])"
| "str_includes (x # xs) p = (startsWith (x # xs) p \<or> str_includes xs p)"

definition slice_0_m3 :: "string \<Rightarrow> string" where
  "slice_0_m3 s = take (length s - 3) s"

text \<open>\<^verbatim>\<open>const windowsToPosix = (path) => path.replace(/\\/g, "/")\<close>\<close>

definition windowsToPosix :: "string \<Rightarrow> string" where
  "windowsToPosix path = map (\<lambda>c. if c = backslash then CHR ''/'' else c) path"

section \<open>Regular expressions\<close>

text \<open>
  The fragment of JavaScript's regular expressions that the source's five patterns use:
  literal characters, character classes, \<^verbatim>\<open>^\<close> (without the \<^verbatim>\<open>m\<close> flag of
  \<open>headingRegex\<close>; the patterns that carry the flag have no anchor), concatenation,
  capturing groups, a greedy optional group, and the quantifiers \<^verbatim>\<open>*\<close>, \<^verbatim>\<open>+\<close>,
  \<^verbatim>\<open>*?\<close>, \<^verbatim>\<open>+?\<close>, which the patterns apply to single character classes only.
\<close>

datatype rx =
    Lit char
  | Cls "char \<Rightarrow> bool"
  | Bol
  | Seq rx rx
  | Grp nat rx
  | Opt rx
  | Star "char \<Rightarrow> bool"
  | Plus "char \<Rightarrow> bool"
  | StarLazy "char \<Rightarrow> bool"
  | PlusLazy "char \<Rightarrow> bool"

type_synonym captures = "nat \<Rightarrow> string option"

text \<open>
  Backtracking as a list of successes. A matcher state is the input still to be read and
  the captures so far; \<open>rxm n r st\<close> lists, in the order in which the backtracking
  matcher tries them, the states in which \<open>r\<close> can leave the state \<open>st\<close>. The head of
  the list is the match JavaScript reports. \<open>n\<close> is the length of the whole input, for
  \<^verbatim>\<open>^\<close>.
\<close>

fun starGreedy :: "(char \<Rightarrow> bool) \<Rightarrow> string \<Rightarrow> string list" where
  "starGreedy P [] = [[]]"
| "starGreedy P (x # xs) = (if P x then starGreedy P xs @ [x # xs] else [x # xs])"

fun starLazy :: "(char \<Rightarrow> bool) \<Rightarrow> string \<Rightarrow> string list" where
  "starLazy P [] = [[]]"
| "starLazy P (x # xs) = (x # xs) # (if P x then starLazy P xs else [])"

fun rxm :: "nat \<Rightarrow> rx \<Rightarrow> string \<times> captures \<Rightarrow> (string \<times> captures) list" where
  "rxm n (Lit c) (s, k) = (case s of [] \<Rightarrow> [] | x # xs \<Rightarrow> if x = c then [(xs, k)] else [])"
| "rxm n (Cls P) (s, k) = (case s of [] \<Rightarrow> [] | x # xs \<Rightarrow> if P x then [(xs, k)] else [])"
| "rxm n Bol (s, k) = (if length s = n then [(s, k)] else [])"
| "rxm n (Seq a b) (s, k) = concat (map (rxm n b) (rxm n a (s, k)))"
| "rxm n (Grp g r) (s, k) =
     map (\<lambda>(s', k'). (s', k'(g \<mapsto> take (length s - length s') s))) (rxm n r (s, k))"
| "rxm n (Opt r) (s, k) = rxm n r (s, k) @ [(s, k)]"
| "rxm n (Star P) (s, k) = map (\<lambda>s'. (s', k)) (starGreedy P s)"
| "rxm n (Plus P) (s, k) =
     (case s of [] \<Rightarrow> [] | x # xs \<Rightarrow> if P x then map (\<lambda>s'. (s', k)) (starGreedy P xs) else [])"
| "rxm n (StarLazy P) (s, k) = map (\<lambda>s'. (s', k)) (starLazy P s)"
| "rxm n (PlusLazy P) (s, k) =
     (case s of [] \<Rightarrow> [] | x # xs \<Rightarrow> if P x then map (\<lambda>s'. (s', k)) (starLazy P xs) else [])"

text \<open>A match: \<^verbatim>\<open>match.index\<close>, the index after the match (the pattern's new
  \<^verbatim>\<open>lastIndex\<close>) and the captures.\<close>

record rmatch =
  index :: nat
  lastIndex :: nat
  groups :: captures

text \<open>\<^verbatim>\<open>regex.exec(s)\<close> with \<^verbatim>\<open>lastIndex = i\<close>: the first start position from
  \<open>i\<close> on, up to the end of the input, at which the pattern matches.\<close>

function exec :: "rx \<Rightarrow> string \<Rightarrow> nat \<Rightarrow> rmatch option" where
  "exec r s i =
     (if length s < i then None
      else case rxm (length s) r (drop i s, Map.empty) of
             [] \<Rightarrow> exec r s (Suc i)
           | (s', k) # _ \<Rightarrow> Some \<lparr>index = i, lastIndex = length s - length s', groups = k\<rparr>)"
  by pat_completeness auto
termination
  by (relation "measure (\<lambda>(r, s, i). Suc (length s) - i)") auto

declare exec.simps [simp del]

subsection \<open>The patterns of the source\<close>

text \<open>\<^verbatim>\<open>\s\<close> on code units below 256: tab, line feed, vertical tab, form feed,
  carriage return, space and the no-break space.\<close>

definition isSpace :: "char \<Rightarrow> bool" where
  "isSpace c = (c = CHR 0x09 \<or> c = CHR 0x0A \<or> c = CHR 0x0B \<or> c = CHR 0x0C \<or> c = CHR 0x0D
     \<or> c = CHR 0x20 \<or> c = CHR 0xA0)"

text \<open>\<^verbatim>\<open>[^\]]\<close>, \<^verbatim>\<open>[^\)]\<close>, \<^verbatim>\<open>[^\s\/]\<close>, \<^verbatim>\<open>[^>]\<close>, \<^verbatim>\<open>['\"]\<close>,
  \<^verbatim>\<open>[^'\"]\<close>, and \<^verbatim>\<open>.\<close> (any code unit but a line terminator; below 256 these
  are line feed and carriage return).\<close>

definition notRBracket :: "char \<Rightarrow> bool" where
  "notRBracket c = (c \<noteq> CHR '']'')"

definition notRParen :: "char \<Rightarrow> bool" where
  "notRParen c = (c \<noteq> CHR '')'')"

definition fragChar :: "char \<Rightarrow> bool" where
  "fragChar c = (\<not> isSpace c \<and> c \<noteq> CHR ''/'')"

definition notGt :: "char \<Rightarrow> bool" where
  "notGt c = (c \<noteq> CHR ''>'')"

definition isQuote :: "char \<Rightarrow> bool" where
  "isQuote c = (c = squote \<or> c = dquote)"

definition notQuote :: "char \<Rightarrow> bool" where
  "notQuote c = (\<not> isQuote c)"

definition anyChar :: "char \<Rightarrow> bool" where
  "anyChar c = (c \<noteq> CHR 0x0A \<and> c \<noteq> CHR 0x0D)"

definition isHash :: "char \<Rightarrow> bool" where
  "isHash c = (c = CHR ''#'')"

text \<open>\<^verbatim>\<open>(#[^\s\/]+)?\<close>, the optional third group of two of the patterns.\<close>

definition fragmentGroup :: rx where
  "fragmentGroup = Opt (Grp 3 (Seq (Lit (CHR ''#'')) (Plus fragChar)))"

text \<open>\<^verbatim>\<open>const wikilinkRegex = /(\[\[)([^\)]+?)(#[^\s\/]+)?\]\]/gm;\<close>\<close>

definition wikilinkRegex :: rx where
  "wikilinkRegex =
     Seq (Grp 1 (Seq (Lit (CHR ''['')) (Lit (CHR ''[''))))
    (Seq (Grp 2 (PlusLazy notRParen))
    (Seq fragmentGroup
    (Seq (Lit (CHR '']'')) (Lit (CHR '']'')))))"

text \<open>\<^verbatim>\<open>const mdLinkRegex = /\[([^\]]*)\]\(([^\)]+)\)/;\<close>\<close>

definition mdLinkRegex :: rx where
  "mdLinkRegex =
     Seq (Lit (CHR ''[''))
    (Seq (Grp 1 (Star notRBracket))
    (Seq (Lit (CHR '']''))
    (Seq (Lit (CHR ''(''))
    (Seq (Grp 2 (Plus notRParen))
         (Lit (CHR '')''))))))"

text \<open>\<^verbatim>\<open>const mdLinkRegexGlobal = /(\[[^\]]*\]\()([^\)]+?)(#[^\s\/]+)?\)/gm;\<close>\<close>

definition mdLinkRegexGlobal :: rx where
  "mdLinkRegexGlobal =
     Seq (Grp 1 (Seq (Lit (CHR ''['')) (Seq (Star notRBracket)
                 (Seq (Lit (CHR '']'')) (Lit (CHR ''(''))))))
    (Seq (Grp 2 (PlusLazy notRParen))
    (Seq fragmentGroup
         (Lit (CHR '')''))))"

text \<open>\<^verbatim>\<open>const imgRegex = /(<img\s[^>]*?src\s*=\s*['\"])([^'\"]*?)['\"][^>]*?>/gm;\<close>\<close>

definition imgRegex :: rx where
  "imgRegex =
     Seq (Grp 1 (Seq (Lit (CHR ''<'')) (Seq (Lit (CHR ''i'')) (Seq (Lit (CHR ''m''))
                 (Seq (Lit (CHR ''g'')) (Seq (Cls isSpace) (Seq (StarLazy notGt)
                 (Seq (Lit (CHR ''s'')) (Seq (Lit (CHR ''r'')) (Seq (Lit (CHR ''c''))
                 (Seq (Star isSpace) (Seq (Lit (CHR ''='')) (Seq (Star isSpace)
                      (Cls isQuote))))))))))))))
    (Seq (Grp 2 (StarLazy notQuote))
    (Seq (Cls isQuote)
    (Seq (StarLazy notGt)
         (Lit (CHR ''>'')))))"

text \<open>\<^verbatim>\<open>const headingRegex = /^(#+ )(.+)/;\<close> (local to \<open>handleSaveEvent\<close>)\<close>

definition headingRegex :: rx where
  "headingRegex =
     Seq Bol
    (Seq (Grp 1 (Seq (Plus isHash) (Lit (CHR '' ''))))
         (Grp 2 (Plus anyChar)))"

text \<open>A pattern that reads at least one character on every match, and a pattern in
  which group \<open>g\<close> takes part in every match: both are read off the syntax.\<close>

fun consumes :: "rx \<Rightarrow> bool" where
  "consumes (Lit c) = True"
| "consumes (Cls P) = True"
| "consumes Bol = False"
| "consumes (Seq a b) = (consumes a \<or> consumes b)"
| "consumes (Grp g r) = consumes r"
| "consumes (Opt r) = False"
| "consumes (Star P) = False"
| "consumes (Plus P) = True"
| "consumes (StarLazy P) = False"
| "consumes (PlusLazy P) = True"

fun captures :: "nat \<Rightarrow> rx \<Rightarrow> bool" where
  "captures g (Seq a b) = (captures g a \<or> captures g b)"
| "captures g (Grp g' r) = (g = g' \<or> captures g r)"
| "captures g r = False"

text \<open>Group \<open>g\<close> occurs in a pattern; and the shape the three scanned patterns share:
  group 1, then group 2, then a rest that sets neither.\<close>

fun mentions :: "nat \<Rightarrow> rx \<Rightarrow> bool" where
  "mentions g (Seq a b) = (mentions g a \<or> mentions g b)"
| "mentions g (Grp g' r) = (g = g' \<or> mentions g r)"
| "mentions g (Opt r) = mentions g r"
| "mentions g r = False"

definition linkPattern :: "rx \<Rightarrow> bool" where
  "linkPattern r \<longleftrightarrow>
     (\<exists>a b c. r = Seq (Grp 1 a) (Seq (Grp 2 b) c) \<and> \<not> mentions 1 b \<and> \<not> mentions 1 c \<and> \<not> mentions 2 c)"

text \<open>A pattern accepts a text when it matches at its start; a pattern with no anchor
  does so whatever the captures and the length of the whole input are.\<close>

definition accepts :: "rx \<Rightarrow> string \<Rightarrow> bool" where
  "accepts r s \<longleftrightarrow> rxm 0 r (s, Map.empty) \<noteq> []"

fun anchored :: "rx \<Rightarrow> bool" where
  "anchored Bol = True"
| "anchored (Seq a b) = (anchored a \<or> anchored b)"
| "anchored (Grp g r) = anchored r"
| "anchored (Opt r) = anchored r"
| "anchored r = False"

section \<open>Link extraction\<close>

record occurrence =
  target :: string
  line :: nat
  col :: nat
  replaceFileExtension :: bool

text \<open>
  What can go wrong in a scan besides returning: reading a property of an undefined
  capture raises a \<open>TypeError\<close>; a pattern that matches the empty string leaves
  \<^verbatim>\<open>lastIndex\<close> where it was, and the \<^verbatim>\<open>while\<close> loop over \<^verbatim>\<open>regex.exec\<close> then
  never ends (\<open>Diverges\<close>).
\<close>

datatype failure = TypeError | Diverges

lemma exec_lastIndex_le: "exec r s i = Some m \<Longrightarrow> lastIndex m \<le> length s"
proof (induction r s i rule: exec.induct)
  case (1 r s i)
  then show ?case
    by (subst (asm) exec.simps) (auto split: if_splits list.splits)
qed

text \<open>The \<^verbatim>\<open>while ((match = regex.exec(fileContent)) !== null)\<close> loop of
  \<open>getMatchingLinks\<close>, from \<^verbatim>\<open>lastIndex = pos\<close>.\<close>

function matchLoop :: "rx \<Rightarrow> string \<Rightarrow> bool \<Rightarrow> nat \<Rightarrow> failure + occurrence list" where
  "matchLoop regex fileContent flag pos =
     (case exec regex fileContent pos of
        None \<Rightarrow> Inr []
      | Some m \<Rightarrow>
          (case (groups m 1, groups m 2) of
             (Some prefix, Some tgt) \<Rightarrow>
               (let tgt = windowsToPosix tgt;
                    idx = index m + length prefix;
                    lines = split newline (take idx fileContent);
                    ln = length lines - 1;
                    cl = length (lines ! ln);
                    occ = \<lparr>target = tgt, line = ln, col = cl, replaceFileExtension = flag\<rparr>
                in if lastIndex m \<le> pos then Inl Diverges
                   else (case matchLoop regex fileContent flag (lastIndex m) of
                           Inl e \<Rightarrow> Inl e
                         | Inr occs \<Rightarrow> Inr (occ # occs)))
           | _ \<Rightarrow> Inl TypeError))"
  by pat_completeness auto
termination
proof (relation "measure (\<lambda>(r, s, f, pos). length s - pos)")
  show "wf (measure (\<lambda>(r, s, f, pos). length s - pos))"
    by simp
next
  fix regex :: rx and fileContent :: string and flag :: bool and pos :: nat and m :: rmatch
  assume "exec regex fileContent pos = Some m" and "\<not> lastIndex m \<le> pos"
  then show "((regex, fileContent, flag, lastIndex m), (regex, fileContent, flag, pos))
      \<in> measure (\<lambda>(r, s, f, pos). length s - pos)"
    using exec_lastIndex_le [of regex fileContent pos m] by simp
qed

declare matchLoop.simps [simp del]

definition getMatchingLinks :: "rx \<Rightarrow> string option \<Rightarrow> bool \<Rightarrow> failure + occurrence list" where
  "getMatchingLinks regex fileContent flag =
     (case fileContent of
        None \<Rightarrow> Inr []
      | Some c \<Rightarrow> if c = [] then Inr [] else matchLoop regex c flag 0)"

text \<open>\<^verbatim>\<open>yield*\<close> of the three scans, one after the other.\<close>

definition getAllLinks :: "string option \<Rightarrow> failure + occurrence list" where
  "getAllLinks fileContent =
     (case getMatchingLinks mdLinkRegexGlobal fileContent True of
        Inl e \<Rightarrow> Inl e
      | Inr mdLinks \<Rightarrow>
          (case getMatchingLinks imgRegex fileContent True of
             Inl e \<Rightarrow> Inl e
           | Inr imgLinks \<Rightarrow>
               (case getMatchingLinks wikilinkRegex fileContent False of
                  Inl e \<Rightarrow> Inl e
                | Inr wikiLinks \<Rightarrow> Inr (mdLinks @ imgLinks @ wikiLinks))))"

section \<open>Data model\<close>

text \<open>The entries of \<^verbatim>\<open>FileList\<close>, the payloads of the two events, and \<^verbatim>\<open>Edit\<close>.
  Field names that several of the source's interfaces share carry a prefix here.\<close>

record fileEntry =
  path :: string
  content :: string

record renamePayload =
  pathBefore :: string
  pathAfter :: string

record savePayload =
  save_path :: string
  contentBefore :: string
  contentAfter :: string

datatype changeEvent = Save savePayload | Rename renamePayload

record position =
  pos_line :: nat
  character :: nat

record textRange =
  range_start :: position
  range_end :: position

record edit =
  edit_path :: string
  edit_range :: textRange
  newText :: string
  requiresPathToExist :: "string option"

text \<open>\<^verbatim>\<open>Options\<close>: each property may be absent.\<close>

record options =
  exclude :: "string list option"
  include_opt :: "string list option"
  workspacePath :: "string option"

text \<open>A run of the line diff (\<^verbatim>\<open>Change\<close> of the \<^verbatim>\<open>diff\<close> package).\<close>

record change =
  change_value :: string
  added :: bool
  removed :: bool

text \<open>
  The functions the engine imports: \<^verbatim>\<open>path.posix\<close> of Node.js, \<^verbatim>\<open>minimatch\<close>,
  \<^verbatim>\<open>diffLines\<close> of the \<^verbatim>\<open>diff\<close> package and \<^verbatim>\<open>headingToAnchor\<close> of
  \<^verbatim>\<open>./heading-to-anchor\<close>. None of them is part of the two source files, so the engine
  takes them as a parameter and its theorems hold for every implementation of them.
  The path functions, \<^verbatim>\<open>diffLines\<close> and \<^verbatim>\<open>headingToAnchor\<close> return on every string.
  \<^verbatim>\<open>minimatch\<close> does not: it raises \<^verbatim>\<open>TypeError\<close> on a pattern it refuses (one longer
  than 65536 characters), and the engine calls it with no handler around the call, so
  its result is a value or a failure.
\<close>

record deps =
  posix_normalize :: "string \<Rightarrow> string"
  posix_join :: "string \<Rightarrow> string \<Rightarrow> string"
  posix_dirname :: "string \<Rightarrow> string"
  posix_relative :: "string \<Rightarrow> string \<Rightarrow> string"
  minimatch :: "string \<Rightarrow> string \<Rightarrow> failure + bool"
  diffLines :: "string \<Rightarrow> string \<Rightarrow> change list"
  headingToAnchor :: "string \<Rightarrow> string"

section \<open>Rename events\<close>

text \<open>\<^verbatim>\<open>patterns.some((pattern) => minimatch(relativePath, pattern))\<close>: the patterns
  in order, up to the first one that matches; a pattern that \<^verbatim>\<open>minimatch\<close> refuses
  raises when the scan reaches it.\<close>

fun someMatch :: "deps \<Rightarrow> string \<Rightarrow> string list \<Rightarrow> failure + bool" where
  "someMatch L relativePath [] = Inr False"
| "someMatch L relativePath (pattern # rest) =
     (case minimatch L relativePath pattern of
        Inl e \<Rightarrow> Inl e
      | Inr matched \<Rightarrow> if matched then Inr True else someMatch L relativePath rest)"

text \<open>The closure \<^verbatim>\<open>shouldIncludePath\<close> of \<open>handleRenameEvent\<close> (lines 61 to 81), with
  the defaults \<^verbatim>\<open>exclude = []\<close>, \<^verbatim>\<open>include = []\<close> and \<^verbatim>\<open>workspacePath ?? ""\<close>. The
  exclude list is consulted only when the include list is empty.\<close>

definition shouldIncludePath :: "deps \<Rightarrow> options \<Rightarrow> string \<Rightarrow> failure + bool" where
  "shouldIncludePath L opts filePath =
     (let excl = (case exclude opts of None \<Rightarrow> [] | Some e \<Rightarrow> e);
          incl = (case include_opt opts of None \<Rightarrow> [] | Some i \<Rightarrow> i);
          relativePath =
            posix_relative L (case workspacePath opts of None \<Rightarrow> [] | Some w \<Rightarrow> w) filePath
      in case someMatch L relativePath incl of
           Inl e \<Rightarrow> Inl e
         | Inr matchesIncludeList \<Rightarrow>
             if matchesIncludeList then Inr True
             else if length incl > 0 then Inr False
             else (case someMatch L relativePath excl of
                     Inl e \<Rightarrow> Inl e
                   | Inr matchesExcludeList \<Rightarrow> Inr (\<not> matchesExcludeList)))"

text \<open>The range every rename edit carries: from \<open>(line, col)\<close> to
  \<open>(line, col + target.length)\<close>.\<close>

definition targetRange :: "occurrence \<Rightarrow> textRange" where
  "targetRange occ =
     \<lparr>range_start = \<lparr>pos_line = line occ, character = col occ\<rparr>,
      range_end = \<lparr>pos_line = line occ, character = col occ + length (target occ)\<rparr>\<rparr>"

text \<open>The body of the first loop (lines 95 to 126): the moved document's own
  references, against its old and new directory. \<open>None\<close> is \<^verbatim>\<open>continue\<close>.\<close>

definition rebaseEdit :: "deps \<Rightarrow> string \<Rightarrow> string \<Rightarrow> occurrence \<Rightarrow> edit option" where
  "rebaseEdit L pathBefore' pathAfter' occ =
     (let absoluteTarget = posix_join L (posix_dirname L pathBefore') (target occ);
          newLink =
            posix_normalize L (posix_relative L (posix_dirname L pathAfter') absoluteTarget);
          targetIsUnmodified = (posix_normalize L (target occ) = newLink)
      in if targetIsUnmodified then None
         else Some \<lparr>edit_path = pathAfter', edit_range = targetRange occ,
                     newText = newLink, requiresPathToExist = Some absoluteTarget\<rparr>)"

text \<open>The body of the inner loop of the second loop (lines 129 to 202).\<close>

definition repairEdit :: "deps \<Rightarrow> string \<Rightarrow> string \<Rightarrow> fileEntry \<Rightarrow> occurrence \<Rightarrow> edit option" where
  "repairEdit L pathBefore' pathAfter' markdownFile occ =
     (let absoluteTarget0 =
            posix_normalize L
              (posix_join L (posix_dirname L (path markdownFile)) (target occ));
          absoluteTarget =
            (if \<not> replaceFileExtension occ \<and> \<not> str_includes absoluteTarget0 ''.md''
             then absoluteTarget0 @ ''.md'' else absoluteTarget0);
          isLinkToFileInRenamedFolder = startsWith absoluteTarget (pathBefore' @ ''/'');
          isLinkToMovedFile = (absoluteTarget = pathBefore')
      in if isLinkToMovedFile then
           (let newLink0 =
                  posix_normalize L
                    (posix_relative L (posix_dirname L (path markdownFile)) pathAfter');
                newLink =
                  (if \<not> replaceFileExtension occ \<and> \<not> str_includes (target occ) ''.md''
                   then slice_0_m3 newLink0 else newLink0)
            in Some \<lparr>edit_path = path markdownFile, edit_range = targetRange occ,
                       newText = newLink, requiresPathToExist = None\<rparr>)
         else if isLinkToFileInRenamedFolder then
           (let newAbsoluteTarget =
                  pathAfter' @ ''/'' @ drop (length pathBefore' + 1) absoluteTarget;
                newLink0 =
                  posix_relative L (posix_dirname L (path markdownFile)) newAbsoluteTarget;
                newLink = (if \<not> replaceFileExtension occ then slice_0_m3 newLink0 else newLink0)
            in Some \<lparr>edit_path = path markdownFile, edit_range = targetRange occ,
                       newText = newLink, requiresPathToExist = Some newAbsoluteTarget\<rparr>)
         else None)"

text \<open>The second loop: every document of the filtered list, in order.\<close>

fun repairEdits :: "deps \<Rightarrow> string \<Rightarrow> string \<Rightarrow> fileEntry list \<Rightarrow> failure + edit list" where
  "repairEdits L pathBefore' pathAfter' [] = Inr []"
| "repairEdits L pathBefore' pathAfter' (markdownFile # rest) =
     (case getAllLinks (Some (content markdownFile)) of
        Inl e \<Rightarrow> Inl e
      | Inr occs \<Rightarrow>
          (case repairEdits L pathBefore' pathAfter' rest of
             Inl e \<Rightarrow> Inl e
           | Inr es \<Rightarrow>
               Inr (List.map_filter (repairEdit L pathBefore' pathAfter' markdownFile) occs @ es)))"

text \<open>The first loop, over the links of the document found at \<open>pathAfter\<close>.\<close>

definition rebaseEdits :: "deps \<Rightarrow> string \<Rightarrow> string \<Rightarrow> string option \<Rightarrow> failure + edit list" where
  "rebaseEdits L pathBefore' pathAfter' fileContent =
     (case getAllLinks fileContent of
        Inl e \<Rightarrow> Inl e
      | Inr occs \<Rightarrow> Inr (List.map_filter (rebaseEdit L pathBefore' pathAfter') occs))"

text \<open>\<^verbatim>\<open>path.posix.normalize(windowsToPosix(p))\<close>, and the filtered document list
  (lines 83 to 85): \<^verbatim>\<open>filter\<close> calls \<open>shouldIncludePath\<close> on the documents in order and
  stops at the first call that raises.\<close>

definition normalizedPath :: "deps \<Rightarrow> string \<Rightarrow> string" where
  "normalizedPath L p = posix_normalize L (windowsToPosix p)"

fun filterIncluded :: "deps \<Rightarrow> options \<Rightarrow> fileEntry list \<Rightarrow> failure + fileEntry list" where
  "filterIncluded L opts [] = Inr []"
| "filterIncluded L opts (file # rest) =
     (case shouldIncludePath L opts (path file) of
        Inl e \<Rightarrow> Inl e
      | Inr keep \<Rightarrow>
          (case filterIncluded L opts rest of
             Inl e \<Rightarrow> Inl e
           | Inr kept \<Rightarrow> Inr (if keep then file # kept else kept)))"

definition filteredFiles :: "deps \<Rightarrow> options \<Rightarrow> fileEntry list \<Rightarrow> failure + fileEntry list" where
  "filteredFiles L opts markdownFiles =
     filterIncluded L opts (map (\<lambda>file. file\<lparr>path := windowsToPosix (path file)\<rparr>) markdownFiles)"

definition handleRenameEvent ::
  "deps \<Rightarrow> renamePayload \<Rightarrow> fileEntry list \<Rightarrow> options \<Rightarrow> failure + edit list" where
  "handleRenameEvent L payload markdownFiles opts =
     (let pathBefore' = normalizedPath L (pathBefore payload);
          pathAfter' = normalizedPath L (pathAfter payload)
      in case filteredFiles L opts markdownFiles of
           Inl e \<Rightarrow> Inl e
         | Inr markdownFiles' \<Rightarrow>
             (case shouldIncludePath L opts pathBefore' of
                Inl e \<Rightarrow> Inl e
              | Inr included \<Rightarrow>
                  if \<not> included then Inr []
                  else
                    (let fileContent =
                           map_option content
                             (find (\<lambda>file. posix_normalize L (path file) = pathAfter')
                                markdownFiles')
                     in case rebaseEdits L pathBefore' pathAfter' fileContent of
                          Inl e \<Rightarrow> Inl e
                        | Inr rebased \<Rightarrow>
                            (case repairEdits L pathBefore' pathAfter' markdownFiles' of
                               Inl e \<Rightarrow> Inl e
                             | Inr repaired \<Rightarrow> Inr (rebased @ repaired)))))"

section \<open>Save events\<close>

record renamedHeading =
  oldHeader :: string
  newHeader :: string

text \<open>The callback of \<^verbatim>\<open>diff.map\<close> (lines 214 to 246) at one index; \<open>None\<close> is
  \<^verbatim>\<open>null\<close>, which \<^verbatim>\<open>filter(Boolean)\<close> drops. Captures 1 and 2 take part in every
  match of \<open>headingRegex\<close>.\<close>

definition renamedHeadingAt :: "change list \<Rightarrow> nat \<Rightarrow> renamedHeading option" where
  "renamedHeadingAt diff i =
     (if \<not> Suc i < length diff then None
      else
        (let chg = diff ! i; nextChange = diff ! Suc i;
             removedAndAddedLine = (removed chg \<and> added nextChange)
         in if removedAndAddedLine then
              (let oldLine = change_value chg; newLine = change_value nextChange
               in case (exec headingRegex oldLine 0, exec headingRegex newLine 0) of
                    (Some oldLineMatch, Some newLineMatch) \<Rightarrow>
                      (if groups oldLineMatch 1 = groups newLineMatch 1 then
                         (case (groups oldLineMatch 2, groups newLineMatch 2) of
                            (Some oh, Some nh) \<Rightarrow> Some \<lparr>oldHeader = oh, newHeader = nh\<rparr>
                          | _ \<Rightarrow> None)
                       else None)
                  | _ \<Rightarrow> None)
            else None))"

definition renamedHeadings :: "change list \<Rightarrow> renamedHeading list" where
  "renamedHeadings diff = List.map_filter (renamedHeadingAt diff) [0..<length diff]"

text \<open>The body of the loop over the lines of \<open>contentAfter\<close> (lines 251 to 275): the
  first inline link of the line, against every renamed heading.\<close>

definition anchorEdits ::
  "deps \<Rightarrow> string \<Rightarrow> renamedHeading list \<Rightarrow> nat \<Rightarrow> string \<Rightarrow> edit list" where
  "anchorEdits L p headings lineNumber ln =
     (case exec mdLinkRegex ln 0 of
        None \<Rightarrow> []
      | Some m \<Rightarrow>
          if lastIndex m \<le> index m then []
          else
            List.map_filter
              (\<lambda>h. let oldHeaderAnchor = headingToAnchor L (oldHeader h);
                       newHeaderAnchor = headingToAnchor L (newHeader h)
                   in if groups m 2 = Some (CHR ''#'' # oldHeaderAnchor) then
                        Some \<lparr>edit_path = p,
                              edit_range =
                                \<lparr>range_start = \<lparr>pos_line = lineNumber, character = 0\<rparr>,
                                 range_end = \<lparr>pos_line = lineNumber, character = length ln\<rparr>\<rparr>,
                              newText =
                                ''['' @ (case groups m 1 of None \<Rightarrow> ''undefined'' | Some name \<Rightarrow> name)
                                  @ ''](#'' @ newHeaderAnchor @ '')'',
                              requiresPathToExist = None\<rparr>
                      else None)
              headings)"

definition handleSaveEvent :: "deps \<Rightarrow> savePayload \<Rightarrow> options \<Rightarrow> edit list" where
  "handleSaveEvent L payload opts =
     (let diff = diffLines L (contentBefore payload) (contentAfter payload);
          headings = renamedHeadings diff;
          lines = split newline (contentAfter payload)
      in concat (map (\<lambda>lineNumber. anchorEdits L (save_path payload) headings lineNumber
                                      (lines ! lineNumber))
                     [0..<length lines]))"

section \<open>The entry point\<close>

text \<open>\<^verbatim>\<open>ChangeEventType\<close> has the two members \<open>save\<close> and \<open>rename\<close>; the last
  branch of the source's dispatch is for no event of that type.\<close>

definition pureGetEdits ::
  "deps \<Rightarrow> changeEvent \<Rightarrow> fileEntry list \<Rightarrow> options \<Rightarrow> failure + edit list" where
  "pureGetEdits L event markdownFiles opts =
     (case event of
        Save payload \<Rightarrow> Inr (handleSaveEvent L payload opts)
      | Rename payload \<Rightarrow> handleRenameEvent L payload markdownFiles opts)"

section \<open>The imported functions, for concrete runs\<close>

text \<open>
  Executable stand-ins for the imported functions, used where a theorem is run on a
  concrete input. \<open>node_normalize\<close>, \<open>node_join\<close>, \<open>node_dirname\<close> and
  \<open>node_relative\<close> follow \<^verbatim>\<open>path.posix\<close> of Node.js on path segments;
  \<^verbatim>\<open>path.posix.relative\<close> resolves both paths against the working directory of the
  process, which is the parameter \<open>cwd\<close> (an absolute path).
\<close>

definition joinWith :: "string \<Rightarrow> string list \<Rightarrow> string" where
  "joinWith sep xs = (case xs of [] \<Rightarrow> [] | y # ys \<Rightarrow> y @ concat (map (\<lambda>z. sep @ z) ys))"

text \<open>\<^verbatim>\<open>normalizeString\<close>: the stack of kept segments is held in reverse.\<close>

fun normalizeSegs :: "bool \<Rightarrow> string list \<Rightarrow> string list \<Rightarrow> string list" where
  "normalizeSegs allowAboveRoot res [] = rev res"
| "normalizeSegs allowAboveRoot res (seg # segs) =
     (if seg = [] \<or> seg = ''.'' then normalizeSegs allowAboveRoot res segs
      else if seg = ''..'' then
        (case res of
           [] \<Rightarrow> normalizeSegs allowAboveRoot (if allowAboveRoot then [''..''] else []) segs
         | r # rs \<Rightarrow>
             if r = ''..'' then
               normalizeSegs allowAboveRoot (if allowAboveRoot then ''..'' # res else res) segs
             else normalizeSegs allowAboveRoot rs segs)
      else normalizeSegs allowAboveRoot (seg # res) segs)"

definition normalizeString :: "string \<Rightarrow> bool \<Rightarrow> string" where
  "normalizeString p allowAboveRoot =
     joinWith ''/'' (normalizeSegs allowAboveRoot [] (split (CHR ''/'') p))"

definition node_normalize :: "string \<Rightarrow> string" where
  "node_normalize p =
     (if p = [] then ''.''
      else
        (let isAbsolute = (hd p = CHR ''/'');
             trailingSeparator = (last p = CHR ''/'');
             q = normalizeString p (\<not> isAbsolute)
         in if q = [] then (if isAbsolute then ''/'' else if trailingSeparator then ''./'' else ''.'')
            else (let q' = (if trailingSeparator then q @ ''/'' else q)
                  in if isAbsolute then CHR ''/'' # q' else q')))"

definition node_join :: "string \<Rightarrow> string \<Rightarrow> string" where
  "node_join a b =
     (let joined = (if a = [] then b else if b = [] then a else a @ ''/'' @ b)
      in if joined = [] then ''.'' else node_normalize joined)"

definition node_dirname :: "string \<Rightarrow> string" where
  "node_dirname p =
     (if p = [] then ''.''
      else
        (let hasRoot = (hd p = CHR ''/'');
             t = length (takeWhile (\<lambda>c. c = CHR ''/'') (rev p));
             m = length (takeWhile (\<lambda>c. c \<noteq> CHR ''/'') (drop t (rev p)));
             e = length p - t - m
         in if m = 0 \<or> e < 2 then (if hasRoot then ''/'' else ''.'')
            else if hasRoot \<and> e = 2 then ''//''
            else take (e - 1) p))"

definition node_resolve :: "string \<Rightarrow> string \<Rightarrow> string" where
  "node_resolve cwd p =
     CHR ''/'' # normalizeString (if p \<noteq> [] \<and> hd p = CHR ''/'' then p else cwd @ ''/'' @ p) False"

fun dropCommon :: "string list \<Rightarrow> string list \<Rightarrow> string list \<times> string list" where
  "dropCommon (a # as) (b # bs) = (if a = b then dropCommon as bs else (a # as, b # bs))"
| "dropCommon as bs = (as, bs)"

definition node_relative :: "string \<Rightarrow> string \<Rightarrow> string \<Rightarrow> string" where
  "node_relative cwd from to =
     (if from = to then []
      else
        (let from' = node_resolve cwd from; to' = node_resolve cwd to
         in if from' = to' then []
            else
              (let (fs, ts) = dropCommon (filter (\<lambda>x. x \<noteq> []) (split (CHR ''/'') from'))
                                         (filter (\<lambda>x. x \<noteq> []) (split (CHR ''/'') to'))
               in joinWith ''/'' (map (\<lambda>_. ''..'') fs @ ts))))"

text \<open>\<^verbatim>\<open>minimatch\<close> on patterns built from literal characters, \<^verbatim>\<open>?\<close>, \<^verbatim>\<open>*\<close> (any run
  without a slash) and \<^verbatim>\<open>**\<close> (any run), on paths with no segment that starts with
  a dot. The library checks the pattern before it matches: a pattern longer than
  \<^verbatim>\<open>1024 * 64\<close> characters raises \<^verbatim>\<open>TypeError: pattern is too long\<close>.\<close>

fun glob :: "string \<Rightarrow> string \<Rightarrow> bool" where
  "glob [] s = (s = [])"
| "glob (p # ps) s =
     (if p = CHR ''*'' then
        (case ps of
           q # qs \<Rightarrow>
             if q = CHR ''*'' then list_ex (\<lambda>k. glob qs (drop k s)) [0..<Suc (length s)]
             else list_ex (\<lambda>k. glob ps (drop k s))
                    [0..<Suc (length (takeWhile (\<lambda>c. c \<noteq> CHR ''/'') s))]
         | [] \<Rightarrow> list_all (\<lambda>c. c \<noteq> CHR ''/'') s)
      else if p = CHR ''?'' then (case s of [] \<Rightarrow> False | x # xs \<Rightarrow> x \<noteq> CHR ''/'' \<and> glob ps xs)
      else (case s of [] \<Rightarrow> False | x # xs \<Rightarrow> x = p \<and> glob ps xs))"

definition node_minimatch :: "string \<Rightarrow> string \<Rightarrow> failure + bool" where
  "node_minimatch p pattern =
     (if 65536 < int (length pattern) then Inl TypeError else Inr (glob pattern p))"

text \<open>\<^verbatim>\<open>diffLines\<close> on two texts that differ in one block of lines: the common
  leading lines, the removed block, the added block, the common trailing lines; empty
  runs are left out. A line keeps its line feed.\<close>

definition textLines :: "string \<Rightarrow> string list" where
  "textLines s =
     (let pieces = split newline s
      in map (\<lambda>p. p @ [newline]) (butlast pieces) @ (if last pieces = [] then [] else [last pieces]))"

fun commonPrefix :: "string list \<Rightarrow> string list \<Rightarrow> string list" where
  "commonPrefix (a # as) (b # bs) = (if a = b then a # commonPrefix as bs else [])"
| "commonPrefix as bs = []"

definition run :: "bool \<Rightarrow> bool \<Rightarrow> string list \<Rightarrow> change list" where
  "run a r ls = (if ls = [] then [] else [\<lparr>change_value = concat ls, added = a, removed = r\<rparr>])"

definition blockDiff :: "string \<Rightarrow> string \<Rightarrow> change list" where
  "blockDiff old new =
     (let os = textLines old; ns = textLines new;
          pre = commonPrefix os ns;
          os' = drop (length pre) os; ns' = drop (length pre) ns;
          suf = rev (commonPrefix (rev os') (rev ns'));
          del = take (length os' - length suf) os';
          ins = take (length ns' - length suf) ns'
      in run False False pre @ run False True del @ run True False ins @ run False False suf)"

text \<open>Modelled from the spec: \<^verbatim>\<open>headingToAnchor\<close> of \<^verbatim>\<open>./heading-to-anchor\<close>, which is
  not among the source files: lowercase, strip characters outside \<^verbatim>\<open>[a-z0-9- ]\<close>,
  collapse whitespace to single hyphens.\<close>

definition lowerChar :: "char \<Rightarrow> char" where
  "lowerChar c =
     (if of_char c \<ge> (65::nat) \<and> of_char c \<le> (90::nat) then char_of (of_char c + (32::nat)) else c)"

definition slugChar :: "char \<Rightarrow> bool" where
  "slugChar c =
     ((of_char c \<ge> (97::nat) \<and> of_char c \<le> (122::nat)) \<or>
      (of_char c \<ge> (48::nat) \<and> of_char c \<le> (57::nat)) \<or> c = CHR ''-'' \<or> c = CHR '' '')"

fun hyphenate :: "string \<Rightarrow> string" where
  "hyphenate [] = []"
| "hyphenate (x # xs) =
     (if x = CHR '' '' \<and> xs \<noteq> [] \<and> hd xs = CHR '' '' then hyphenate xs
      else (if x = CHR '' '' then CHR ''-'' else x) # hyphenate xs)"

definition slug :: "string \<Rightarrow> string" where
  "slug heading = hyphenate (filter slugChar (map lowerChar heading))"

definition nodeDeps :: "string \<Rightarrow> deps" where
  "nodeDeps cwd =
     \<lparr>posix_normalize = node_normalize, posix_join = node_join, posix_dirname = node_dirname,
      posix_relative = node_relative cwd, minimatch = node_minimatch,
      diffLines = blockDiff, headingToAnchor = slug\<rparr>"

section \<open>Notions of the specification\<close>

text \<open>The glob filter's failure in the specification's words: the path, relative to
  the workspace, matches an exclude pattern and either matches no include pattern or
  the include list is empty.\<close>

definition failsGlobFilter :: "deps \<Rightarrow> options \<Rightarrow> string \<Rightarrow> bool" where
  "failsGlobFilter L opts filePath =
     (let relativePath =
            posix_relative L (case workspacePath opts of None \<Rightarrow> [] | Some w \<Rightarrow> w) filePath;
          excl = (case exclude opts of None \<Rightarrow> [] | Some e \<Rightarrow> e);
          incl = (case include_opt opts of None \<Rightarrow> [] | Some i \<Rightarrow> i)
      in someMatch L relativePath excl = Inr True \<and>
         (someMatch L relativePath incl = Inr False \<or> incl = []))"

text \<open>The path a reference points at, as the repair loop resolves it (lines 130 to
  145): the target joined to the directory of the document that holds it, normalised;
  for a reference of the style that omits the extension, with \<^verbatim>\<open>.md\<close> appended when
  the resolved path does not contain \<^verbatim>\<open>.md\<close>.\<close>

definition resolvedTarget :: "deps \<Rightarrow> fileEntry \<Rightarrow> occurrence \<Rightarrow> string" where
  "resolvedTarget L markdownFile occ =
     (let resolved =
            posix_normalize L (posix_join L (posix_dirname L (path markdownFile)) (target occ))
      in if \<not> replaceFileExtension occ \<and> \<not> str_includes resolved ''.md''
         then resolved @ ''.md'' else resolved)"

text \<open>The new link the rebase loop computes for a reference of the moved document
  (lines 97 to 103): the target, resolved against the old directory, relative to the new
  directory, normalised.\<close>

definition rebasedLink :: "deps \<Rightarrow> string \<Rightarrow> string \<Rightarrow> occurrence \<Rightarrow> string" where
  "rebasedLink L pathBefore' pathAfter' occ =
     posix_normalize L
       (posix_relative L (posix_dirname L pathAfter')
          (posix_join L (posix_dirname L pathBefore') (target occ)))"

text \<open>The text a range covers, when the range lies within one line of the document.\<close>

definition textInRange :: "string \<Rightarrow> textRange \<Rightarrow> string option" where
  "textInRange c r =
     (let lines = split newline c;
          l = pos_line (range_start r);
          a = character (range_start r);
          b = character (range_end r)
      in if pos_line (range_end r) = l \<and> l < length lines \<and> a \<le> b \<and> b \<le> length (lines ! l)
         then Some (take (b - a) (drop a (lines ! l)))
         else None)"

text \<open>Where an occurrence lies: \<open>raw\<close> is the text of capture 2 as written, at offset
  \<open>idx\<close>; the occurrence carries its line and column and the target with slashes.\<close>

definition occursAt :: "string \<Rightarrow> occurrence \<Rightarrow> nat \<Rightarrow> string \<Rightarrow> bool" where
  "occursAt s occ idx raw \<longleftrightarrow>
     take (length raw) (drop idx s) = raw \<and> idx + length raw \<le> length s \<and>
     target occ = windowsToPosix raw \<and>
     line occ = length (split newline (take idx s)) - 1 \<and>
     col occ = length (last (split newline (take idx s)))"

text \<open>A trailing fragment of a target: a non-empty path, then \<^verbatim>\<open>#\<close>, then one or
  more characters that are neither whitespace nor a slash, up to the end.\<close>

definition fragmentAt :: "string \<Rightarrow> bool" where
  "fragmentAt s = (case s of [] \<Rightarrow> False | x # xs \<Rightarrow> x = CHR ''#'' \<and> xs \<noteq> [] \<and> list_all fragChar xs)"

fun hasFragmentSuffix :: "string \<Rightarrow> bool" where
  "hasFragmentSuffix [] = False"
| "hasFragmentSuffix (x # xs) = (fragmentAt (x # xs) \<or> hasFragmentSuffix xs)"

definition hasTrailingFragment :: "string \<Rightarrow> bool" where
  "hasTrailingFragment t = (case t of [] \<Rightarrow> False | x # xs \<Rightarrow> hasFragmentSuffix xs)"

text \<open>The heading pattern of the specification, on one line: one or more \<^verbatim>\<open>#\<close>, one
  space, then a non-empty text up to the end of the line. The result is the prefix
  (the \<^verbatim>\<open>#\<close> characters and the space) and the text.\<close>

definition headingParts :: "string \<Rightarrow> (string \<times> string) option" where
  "headingParts v =
     (let hashes = takeWhile isHash v;
          rest = drop (length hashes) v
      in case rest of
           [] \<Rightarrow> None
         | x # xs \<Rightarrow>
             if hashes \<noteq> [] \<and> x = CHR '' '' \<and> takeWhile anyChar xs \<noteq> []
             then Some (hashes @ '' '', takeWhile anyChar xs)
             else None)"

text \<open>The first line of a run of the diff, and its last line (a run ends with the line
  feed of its last line, unless it ends the text).\<close>

definition firstLine :: "string \<Rightarrow> string" where
  "firstLine v = takeWhile (\<lambda>c. c \<noteq> newline) v"

definition lastLine :: "string \<Rightarrow> string" where
  "lastLine v = last (split newline (if v \<noteq> [] \<and> last v = newline then butlast v else v))"

text \<open>A candidate pair of lines is a heading rename when both are headings with the
  same prefix.\<close>

definition headingRename :: "string \<Rightarrow> string \<Rightarrow> renamedHeading option" where
  "headingRename oldLine newLine =
     (case (headingParts oldLine, headingParts newLine) of
        (Some (p, t), Some (p', t')) \<Rightarrow>
          if p = p' then Some \<lparr>oldHeader = t, newHeader = t'\<rparr> else None
      | _ \<Rightarrow> None)"

text \<open>The detector over the runs of the diff, candidates taken from the first line of
  the deletion run and the first line of the insertion run; and as the specification
  words it, from the last line of the deletion run and the first line of the insertion
  run.\<close>

fun renamedHeadings_firstLines :: "change list \<Rightarrow> renamedHeading list" where
  "renamedHeadings_firstLines (c # n # rest) =
     (if removed c \<and> added n then
        (case headingRename (firstLine (change_value c)) (firstLine (change_value n)) of
           None \<Rightarrow> [] | Some h \<Rightarrow> [h])
      else []) @ renamedHeadings_firstLines (n # rest)"
| "renamedHeadings_firstLines diff = []"

fun renamedHeadings_spec :: "change list \<Rightarrow> renamedHeading list" where
  "renamedHeadings_spec (c # n # rest) =
     (if removed c \<and> added n then
        (case headingRename (lastLine (change_value c)) (firstLine (change_value n)) of
           None \<Rightarrow> [] | Some h \<Rightarrow> [h])
      else []) @ renamedHeadings_spec (n # rest)"
| "renamedHeadings_spec diff = []"

text \<open>Modelled from the spec: the host's application of a run's edits to the document
  set, which is not part of the engine. An edit is a half-open text replacement on one
  document; the offsets of a document's edits are those of its text before the run, so
  they are applied from the last position to the first. An edit belongs to the document
  whose path the engine gave it: the path with slashes, or the normalised path.\<close>

definition offsetOf :: "string \<Rightarrow> position \<Rightarrow> nat" where
  "offsetOf c p =
     sum_list (map (\<lambda>l. Suc (length l)) (take (pos_line p) (split newline c))) + character p"

definition applyEdit :: "string \<Rightarrow> edit \<Rightarrow> string" where
  "applyEdit c e =
     take (offsetOf c (range_start (edit_range e))) c @ newText e @
     drop (offsetOf c (range_end (edit_range e))) c"

definition applyAll :: "string \<Rightarrow> edit list \<Rightarrow> string" where
  "applyAll c es =
     foldl applyEdit c (rev (sort_key (\<lambda>e. offsetOf c (range_start (edit_range e))) es))"



section \<open>Example inputs\<close>

definition node :: deps where
  "node = nodeDeps ''/w''"

definition noOptions :: options where
  "noOptions = \<lparr>exclude = None, include_opt = None, workspacePath = None\<rparr>"

section \<open>Properties of the matcher\<close>

subsection \<open>What a match reads and captures\<close>

text \<open>Every state a pattern leaves is a suffix of the state it was given; a pattern
  that consumes leaves a proper suffix; captures are only ever added.\<close>

lemma starGreedy_suffix: "s' \<in> set (starGreedy P s) \<Longrightarrow> \<exists>p. s = p @ s'"
  by (induction s) (auto split: if_splits intro: exI [of _ "_ # _"])

lemma starLazy_suffix: "s' \<in> set (starLazy P s) \<Longrightarrow> \<exists>p. s = p @ s'"
  by (induction s) (auto split: if_splits intro: exI [of _ "_ # _"])

lemma rxm_suffix: "(s', k') \<in> set (rxm n r (s, k)) \<Longrightarrow> \<exists>p. s = p @ s'"
proof (induction r arbitrary: s k s' k')
  case (Seq a b)
  then obtain s1 k1 where a: "(s1, k1) \<in> set (rxm n a (s, k))"
    and b: "(s', k') \<in> set (rxm n b (s1, k1))"
    by auto
  from Seq.IH(1) [OF a] Seq.IH(2) [OF b] show ?case by auto
next
  case (Plus P)
  then show ?case
    by (cases s) (auto split: if_splits dest!: starGreedy_suffix intro: exI [of _ "_ # _"])
next
  case (PlusLazy P)
  then show ?case
    by (cases s) (auto split: if_splits dest!: starLazy_suffix intro: exI [of _ "_ # _"])
qed (auto split: list.splits if_splits dest: starGreedy_suffix starLazy_suffix)

lemma rxm_length_le: "(s', k') \<in> set (rxm n r (s, k)) \<Longrightarrow> length s' \<le> length s"
  using rxm_suffix [of s' k' n r s k] by auto

lemma rxm_consumes:
  "consumes r \<Longrightarrow> (s', k') \<in> set (rxm n r (s, k)) \<Longrightarrow> length s' < length s"
proof (induction r arbitrary: s k s' k')
  case (Seq a b)
  from Seq.prems(2) obtain s1 k1 where a: "(s1, k1) \<in> set (rxm n a (s, k))"
    and b: "(s', k') \<in> set (rxm n b (s1, k1))"
    by auto
  show ?case
  proof (cases "consumes a")
    case True
    with Seq.IH(1) a have "length s1 < length s" by blast
    with rxm_length_le [OF b] show ?thesis by simp
  next
    case False
    with Seq.prems(1) have "consumes b" by simp
    with Seq.IH(2) b have "length s' < length s1" by blast
    with rxm_length_le [OF a] show ?thesis by simp
  qed
next
  case (Plus P)
  then show ?case
    by (cases s) (auto split: if_splits dest!: starGreedy_suffix)
next
  case (PlusLazy P)
  then show ?case
    by (cases s) (auto split: if_splits dest!: starLazy_suffix)
qed (auto split: list.splits if_splits)

lemma rxm_keeps:
  "(s', k') \<in> set (rxm n r (s, k)) \<Longrightarrow> k g \<noteq> None \<Longrightarrow> k' g \<noteq> None"
proof (induction r arbitrary: s k s' k')
  case (Seq a b)
  from Seq.prems(1) obtain s1 k1 where a: "(s1, k1) \<in> set (rxm n a (s, k))"
    and b: "(s', k') \<in> set (rxm n b (s1, k1))"
    by auto
  from Seq.IH(1) [OF a Seq.prems(2)] Seq.IH(2) [OF b] show ?case by blast
qed (auto split: list.splits if_splits)

lemma rxm_captures:
  "captures g r \<Longrightarrow> (s', k') \<in> set (rxm n r (s, k)) \<Longrightarrow> k' g \<noteq> None"
proof (induction r arbitrary: s k s' k')
  case (Seq a b)
  from Seq.prems(2) obtain s1 k1 where a: "(s1, k1) \<in> set (rxm n a (s, k))"
    and b: "(s', k') \<in> set (rxm n b (s1, k1))"
    by auto
  show ?case
  proof (cases "captures g a")
    case True
    with Seq.IH(1) a have "k1 g \<noteq> None" by blast
    with rxm_keeps [OF b] show ?thesis by blast
  next
    case False
    with Seq.prems(1) have "captures g b" by simp
    with Seq.IH(2) b show ?thesis by blast
  qed
qed (auto split: list.splits if_splits)

lemma exec_Some:
  "exec r s i = Some m \<Longrightarrow>
     i \<le> index m \<and> index m \<le> length s \<and>
     (\<exists>s' rest. rxm (length s) r (drop (index m) s, Map.empty) = (s', groups m) # rest \<and>
        lastIndex m = length s - length s')"
proof (induction r s i rule: exec.induct)
  case (1 r s i)
  show ?case
  proof (cases "rxm (length s) r (drop i s, Map.empty)")
    case Nil
    with "1.prems" have le: "\<not> length s < i" and nx: "exec r s (Suc i) = Some m"
      by (subst (asm) exec.simps, simp split: if_splits)+
    from "1.IH" [OF le Nil nx] show ?thesis by auto
  next
    case (Cons a list)
    with "1.prems" show ?thesis
      by (subst (asm) exec.simps) (auto split: if_splits prod.splits)
  qed
qed

lemma exec_consumes:
  assumes "exec r s i = Some m" and "consumes r"
  shows "index m < lastIndex m"
proof -
  from exec_Some [OF assms(1)] obtain s' rest where
    m: "rxm (length s) r (drop (index m) s, Map.empty) = (s', groups m) # rest"
    and l: "lastIndex m = length s - length s'" and i: "index m \<le> length s"
    by blast
  from m have "(s', groups m) \<in> set (rxm (length s) r (drop (index m) s, Map.empty))" by simp
  from rxm_consumes [OF assms(2) this] l i show ?thesis by simp
qed

lemma exec_captures:
  assumes "exec r s i = Some m" and "captures g r"
  shows "groups m g \<noteq> None"
proof -
  from exec_Some [OF assms(1)] obtain s' rest where
    m: "rxm (length s) r (drop (index m) s, Map.empty) = (s', groups m) # rest"
    by blast
  then have "(s', groups m) \<in> set (rxm (length s) r (drop (index m) s, Map.empty))" by simp
  from rxm_captures [OF assms(2) this] show ?thesis .
qed

subsection \<open>Every scan returns\<close>

lemma matchLoop_returns:
  assumes "consumes r" and "captures 1 r" and "captures 2 r"
  shows "\<exists>occs. matchLoop r s flag pos = Inr occs"
proof (induction "length s - pos" arbitrary: pos rule: less_induct)
  case less
  show ?case
  proof (cases "exec r s pos")
    case None
    then show ?thesis by (subst matchLoop.simps) simp
  next
    case (Some m)
    from exec_captures [OF Some assms(2)] exec_captures [OF Some assms(3)]
    obtain p t where g: "groups m 1 = Some p" "groups m 2 = Some t"
      by auto
    from exec_consumes [OF Some assms(1)] exec_Some [OF Some]
    have lt: "pos < lastIndex m" by simp
    from exec_lastIndex_le [OF Some] lt have "length s - lastIndex m < length s - pos"
      by simp
    from less [OF this] obtain occs where "matchLoop r s flag (lastIndex m) = Inr occs"
      by blast
    with Some g lt show ?thesis
      by (subst matchLoop.simps) (simp add: Let_def)
  qed
qed

lemma patterns_consume:
  "consumes mdLinkRegexGlobal" "consumes imgRegex" "consumes wikilinkRegex"
  by (simp_all add: mdLinkRegexGlobal_def imgRegex_def wikilinkRegex_def)

lemma patterns_capture:
  "captures 1 mdLinkRegexGlobal" "captures 2 mdLinkRegexGlobal"
  "captures 1 imgRegex" "captures 2 imgRegex"
  "captures 1 wikilinkRegex" "captures 2 wikilinkRegex"
  by (simp_all add: mdLinkRegexGlobal_def imgRegex_def wikilinkRegex_def)

text \<open>The two patterns of the save path define the groups the code reads, so the
  branches of the model for an undefined capture are never taken.\<close>

lemma heading_groups_defined:
  "exec headingRegex v i = Some m \<Longrightarrow> groups m 1 \<noteq> None \<and> groups m 2 \<noteq> None"
  using exec_captures [of headingRegex v i m 1] exec_captures [of headingRegex v i m 2]
  by (simp add: headingRegex_def)

lemma mdLink_groups_defined:
  "exec mdLinkRegex ln i = Some m \<Longrightarrow> groups m 1 \<noteq> None \<and> groups m 2 \<noteq> None"
  using exec_captures [of mdLinkRegex ln i m 1] exec_captures [of mdLinkRegex ln i m 2]
  by (simp add: mdLinkRegex_def)

lemma getMatchingLinks_returns:
  assumes "consumes r" and "captures 1 r" and "captures 2 r"
  shows "\<exists>occs. getMatchingLinks r c flag = Inr occs"
  using matchLoop_returns [OF assms] by (simp add: getMatchingLinks_def split: option.splits)

lemma getAllLinks_returns: "\<exists>occs. getAllLinks c = Inr occs"
proof -
  obtain a where a: "getMatchingLinks mdLinkRegexGlobal c True = Inr a"
    using getMatchingLinks_returns patterns_consume(1) patterns_capture(1,2) by blast
  obtain b where b: "getMatchingLinks imgRegex c True = Inr b"
    using getMatchingLinks_returns patterns_consume(2) patterns_capture(3,4) by blast
  obtain d where d: "getMatchingLinks wikilinkRegex c False = Inr d"
    using getMatchingLinks_returns patterns_consume(3) patterns_capture(5,6) by blast
  from a b d show ?thesis by (simp add: getAllLinks_def)
qed

lemma repairEdits_returns: "\<exists>es. repairEdits L pb pa files = Inr es"
proof (induction files)
  case Nil
  show ?case by simp
next
  case (Cons f files)
  obtain occs where "getAllLinks (Some (content f)) = Inr occs"
    using getAllLinks_returns by blast
  with Cons show ?case by auto
qed

lemma rebaseEdits_returns: "\<exists>es. rebaseEdits L pb pa c = Inr es"
  using getAllLinks_returns [of c] by (auto simp: rebaseEdits_def)

text \<open>The glob filter returns when \<^verbatim>\<open>minimatch\<close> returns on every pattern of the
  options.\<close>

lemma someMatch_returns:
  "(\<And>pattern. pattern \<in> set ps \<Longrightarrow> \<exists>b. minimatch L rel pattern = Inr b) \<Longrightarrow>
     \<exists>b. someMatch L rel ps = Inr b"
proof (induction ps)
  case Nil
  show ?case by (rule exI [of _ False]) simp
next
  case (Cons pattern ps)
  from Cons.prems [of pattern] obtain b where b: "minimatch L rel pattern = Inr b" by auto
  from Cons.IH Cons.prems obtain b' where b': "someMatch L rel ps = Inr b'" by auto
  show ?case
  proof (cases b)
    case True
    with b show ?thesis by (intro exI [of _ True]) simp
  next
    case False
    with b b' show ?thesis by (intro exI [of _ b']) simp
  qed
qed

lemma shouldIncludePath_returns:
  assumes "\<And>pattern p. pattern \<in> set (case include_opt opts of None \<Rightarrow> [] | Some i \<Rightarrow> i) \<union>
               set (case exclude opts of None \<Rightarrow> [] | Some e \<Rightarrow> e) \<Longrightarrow>
             \<exists>b. minimatch L p pattern = Inr b"
  shows "\<exists>b. shouldIncludePath L opts filePath = Inr b"
proof -
  let ?rel = "posix_relative L (case workspacePath opts of None \<Rightarrow> [] | Some w \<Rightarrow> w) filePath"
  obtain bi where bi: "someMatch L ?rel (case include_opt opts of None \<Rightarrow> [] | Some i \<Rightarrow> i) = Inr bi"
    using someMatch_returns [of _ L ?rel] assms by (meson UnI1)
  obtain be where be: "someMatch L ?rel (case exclude opts of None \<Rightarrow> [] | Some e \<Rightarrow> e) = Inr be"
    using someMatch_returns [of _ L ?rel] assms by (meson UnI2)
  from bi be show ?thesis
    by (intro exI [of _ "bi \<or> (length (case include_opt opts of None \<Rightarrow> [] | Some i \<Rightarrow> i) = 0 \<and> \<not> be)"])
       (simp add: shouldIncludePath_def Let_def)
qed

lemma filterIncluded_returns:
  "(\<And>p. \<exists>b. shouldIncludePath L opts p = Inr b) \<Longrightarrow> \<exists>kept. filterIncluded L opts fs = Inr kept"
proof (induction fs)
  case Nil
  show ?case by simp
next
  case (Cons f fs)
  from Cons.prems [of "path f"] obtain b where b: "shouldIncludePath L opts (path f) = Inr b" by auto
  from Cons.IH Cons.prems obtain kept where "filterIncluded L opts fs = Inr kept" by auto
  with b show ?case by simp
qed



lemma handleRenameEvent_returns:
  assumes "\<And>pattern p. pattern \<in> set (case include_opt opts of None \<Rightarrow> [] | Some i \<Rightarrow> i) \<union>
               set (case exclude opts of None \<Rightarrow> [] | Some e \<Rightarrow> e) \<Longrightarrow>
             \<exists>b. minimatch L p pattern = Inr b"
  shows "\<exists>es. handleRenameEvent L payload files opts = Inr es"
proof -
  let ?pb = "normalizedPath L (pathBefore payload)"
  let ?pa = "normalizedPath L (pathAfter payload)"
  have inc: "\<And>p. \<exists>b. shouldIncludePath L opts p = Inr b"
    using shouldIncludePath_returns [of opts L] assms by blast
  obtain fs where fs: "filteredFiles L opts files = Inr fs"
    using filterIncluded_returns [of L opts] inc unfolding filteredFiles_def by blast
  obtain b where b: "shouldIncludePath L opts ?pb = Inr b" using inc by blast
  let ?c = "map_option content (find (\<lambda>file. posix_normalize L (path file) = ?pa) fs)"
  obtain ea where ea: "rebaseEdits L ?pb ?pa ?c = Inr ea"
    using rebaseEdits_returns by blast
  obtain eb where eb: "repairEdits L ?pb ?pa fs = Inr eb"
    using repairEdits_returns by blast
  from fs b ea eb show ?thesis
    by (simp add: handleRenameEvent_def Let_def)
qed

subsection \<open>The flag of an occurrence\<close>

lemma matchLoop_flag:
  "matchLoop r s flag pos = Inr occs \<Longrightarrow> list_all (\<lambda>occ. replaceFileExtension occ = flag) occs"
proof (induction "length s - pos" arbitrary: pos occs rule: less_induct)
  case less
  show ?case
  proof (cases "exec r s pos")
    case None
    with less.prems show ?thesis by (subst (asm) matchLoop.simps) auto
  next
    case (Some m)
    show ?thesis
    proof (cases "lastIndex m \<le> pos")
      case True
      with less.prems Some show ?thesis
        by (subst (asm) matchLoop.simps) (auto simp: Let_def split: option.splits)
    next
      case False
      with exec_lastIndex_le [OF Some] have d: "length s - lastIndex m < length s - pos"
        by simp
      from less.prems Some False obtain occ rest where
        o: "occs = occ # rest" "replaceFileExtension occ = flag"
          "matchLoop r s flag (lastIndex m) = Inr rest"
        by (subst (asm) matchLoop.simps) (auto simp: Let_def split: option.splits sum.splits)
      from less.hyps [OF d o(3)] o show ?thesis by simp
    qed
  qed
qed

lemma getMatchingLinks_flag:
  "getMatchingLinks r c flag = Inr occs \<Longrightarrow> list_all (\<lambda>occ. replaceFileExtension occ = flag) occs"
  using matchLoop_flag by (auto simp: getMatchingLinks_def split: option.splits if_splits)

subsection \<open>Where the edits of a rename come from\<close>

lemma map_filter_mem: "e \<in> set (List.map_filter f xs) \<longleftrightarrow> (\<exists>x \<in> set xs. f x = Some e)"
  by (induction xs) (auto simp: List.map_filter_simps split: option.splits)

lemma rebaseEdits_mem:
  "rebaseEdits L pb pa c = Inr es \<Longrightarrow>
     e \<in> set es \<longleftrightarrow> (\<exists>occs occ. getAllLinks c = Inr occs \<and> occ \<in> set occs \<and> rebaseEdit L pb pa occ = Some e)"
  by (auto simp: rebaseEdits_def map_filter_mem split: sum.splits)

lemma repairEdits_mem:
  "repairEdits L pb pa fs = Inr es \<Longrightarrow>
     e \<in> set es \<longleftrightarrow>
       (\<exists>f occs occ. f \<in> set fs \<and> getAllLinks (Some (content f)) = Inr occs \<and> occ \<in> set occs \<and>
          repairEdit L pb pa f occ = Some e)"
proof (induction fs arbitrary: es)
  case Nil
  then show ?case by auto
next
  case (Cons f fs)
  from Cons.prems obtain occs rest where
    o: "getAllLinks (Some (content f)) = Inr occs" and r: "repairEdits L pb pa fs = Inr rest"
    and es: "es = List.map_filter (repairEdit L pb pa f) occs @ rest"
    by (auto split: sum.splits)
  from Cons.IH [OF r] o es show ?case
    by (auto simp: map_filter_mem)
qed

lemma handleRenameEvent_included:
  assumes "handleRenameEvent L payload files opts = Inr es"
    and "shouldIncludePath L opts (normalizedPath L (pathBefore payload)) = Inr True"
  shows "\<exists>fs rebased repaired. filteredFiles L opts files = Inr fs \<and> es = rebased @ repaired \<and>
     rebaseEdits L (normalizedPath L (pathBefore payload)) (normalizedPath L (pathAfter payload))
       (map_option content
          (find (\<lambda>file. posix_normalize L (path file) = normalizedPath L (pathAfter payload))
             fs)) = Inr rebased \<and>
     repairEdits L (normalizedPath L (pathBefore payload)) (normalizedPath L (pathAfter payload))
       fs = Inr repaired"
  using assms by (auto simp: handleRenameEvent_def Let_def split: sum.splits)


subsection \<open>Groups 1 and 2 of the scanned patterns\<close>

text \<open>A pattern leaves the groups it does not mention as they were. In a pattern of
  the scanned shape, the texts of groups 1 and 2 follow one another in the input.\<close>

lemma rxm_frame:
  "\<not> mentions g r \<Longrightarrow> (s', k') \<in> set (rxm n r (s, k)) \<Longrightarrow> k' g = k g"
proof (induction r arbitrary: s k s' k')
  case (Seq a b)
  from Seq.prems(2) obtain s1 k1 where a: "(s1, k1) \<in> set (rxm n a (s, k))"
    and b: "(s', k') \<in> set (rxm n b (s1, k1))"
    by auto
  from Seq.IH(1) [OF _ a] Seq.IH(2) [OF _ b] Seq.prems(1) show ?case by simp
qed (auto split: list.splits if_splits)

lemma rxm_Seq_mem:
  "(s', k') \<in> set (rxm n (Seq a b) (s, k)) \<longleftrightarrow>
     (\<exists>s1 k1. (s1, k1) \<in> set (rxm n a (s, k)) \<and> (s', k') \<in> set (rxm n b (s1, k1)))"
  by auto

lemma rxm_Grp:
  assumes "(s', k') \<in> set (rxm n (Grp g r) (s, k))"
  shows "\<exists>p. s = p @ s' \<and> k' g = Some p"
proof -
  from assms obtain k0 where m: "(s', k0) \<in> set (rxm n r (s, k))"
    and k': "k' = k0(g \<mapsto> take (length s - length s') s)"
    by auto
  from rxm_suffix [OF m] obtain p where "s = p @ s'" by blast
  with k' show ?thesis by simp
qed

lemma linkPattern_groups:
  assumes "linkPattern r" and "(s', k') \<in> set (rxm n r (s, k))"
  shows "\<exists>p t rest. s = p @ t @ rest \<and> k' 1 = Some p \<and> k' 2 = Some t"
proof -
  from assms(1) obtain a b c where r: "r = Seq (Grp 1 a) (Seq (Grp 2 b) c)"
    and nb: "\<not> mentions 1 b" and nc: "\<not> mentions 1 c" "\<not> mentions 2 c"
    by (auto simp: linkPattern_def)
  from assms(2) r have "\<exists>s1 k1 s2 k2. (s1, k1) \<in> set (rxm n (Grp 1 a) (s, k)) \<and>
      (s2, k2) \<in> set (rxm n (Grp 2 b) (s1, k1)) \<and> (s', k') \<in> set (rxm n c (s2, k2))"
    by (simp only: rxm_Seq_mem) blast
  then obtain s1 k1 s2 k2 where
    1: "(s1, k1) \<in> set (rxm n (Grp 1 a) (s, k))"
    and 2: "(s2, k2) \<in> set (rxm n (Grp 2 b) (s1, k1))"
    and 3: "(s', k') \<in> set (rxm n c (s2, k2))"
    by blast
  from rxm_Grp [OF 1] obtain p where p: "s = p @ s1" "k1 1 = Some p" by blast
  from rxm_Grp [OF 2] obtain t where t: "s1 = t @ s2" "k2 2 = Some t" by blast
  from 2 obtain k0 where "(s2, k0) \<in> set (rxm n b (s1, k1))" and "k2 = k0(2 \<mapsto> t)"
    using t by auto
  with rxm_frame [OF nb, of s2 k0 n s1 k1] p have "k2 1 = Some p" by simp
  with rxm_frame [OF nc(1) 3] rxm_frame [OF nc(2) 3] t have "k' 1 = Some p" "k' 2 = Some t"
    by simp_all
  with p t show ?thesis by auto
qed

lemma patterns_linkPattern:
  "linkPattern mdLinkRegexGlobal" "linkPattern imgRegex" "linkPattern wikilinkRegex"
  by (simp_all add: linkPattern_def mdLinkRegexGlobal_def imgRegex_def wikilinkRegex_def
      fragmentGroup_def)

subsection \<open>Lines and columns\<close>

lemma split_nonempty [simp]: "split c s \<noteq> []"
  by (induction s) (auto split: list.splits)

lemma matchLoop_occursAt:
  assumes "linkPattern r"
  shows "matchLoop r s flag pos = Inr occs \<Longrightarrow> occ \<in> set occs \<Longrightarrow> \<exists>idx raw. occursAt s occ idx raw"
proof (induction "length s - pos" arbitrary: pos occs rule: less_induct)
  case less
  show ?case
  proof (cases "exec r s pos")
    case None
    with less.prems show ?thesis by (subst (asm) matchLoop.simps) auto
  next
    case (Some m)
    from exec_Some [OF Some] obtain s' rest where
      m: "rxm (length s) r (drop (index m) s, Map.empty) = (s', groups m) # rest"
      and i: "index m \<le> length s"
      by blast
    then have "(s', groups m) \<in> set (rxm (length s) r (drop (index m) s, Map.empty))" by simp
    from linkPattern_groups [OF assms this] obtain p t rest' where
      d: "drop (index m) s = p @ t @ rest'" and g: "groups m 1 = Some p" "groups m 2 = Some t"
      by blast
    let ?idx = "index m + length p"
    let ?o = "\<lparr>target = windowsToPosix t, line = length (split newline (take ?idx s)) - 1,
               col = length (split newline (take ?idx s) ! (length (split newline (take ?idx s)) - 1)),
               replaceFileExtension = flag\<rparr>"
    from d have "drop (length p) (drop (index m) s) = t @ rest'" by simp
    then have dd: "drop ?idx s = t @ rest'" by (simp add: add.commute)
    from d have "length (drop (index m) s) = length (p @ t @ rest')" by simp
    with i have len: "?idx + length t \<le> length s" by simp
    have at: "occursAt s ?o ?idx t"
      using dd len by (simp add: occursAt_def last_conv_nth)
    show ?thesis
    proof (cases "lastIndex m \<le> pos")
      case True
      with less.prems Some g show ?thesis
        by (subst (asm) matchLoop.simps) (auto simp: Let_def)
    next
      case False
      with exec_lastIndex_le [OF Some] have dl: "length s - lastIndex m < length s - pos"
        by simp
      from less.prems(1) Some False g obtain rest2 where
        o: "occs = ?o # rest2" "matchLoop r s flag (lastIndex m) = Inr rest2"
        by (subst (asm) matchLoop.simps) (auto simp: Let_def split: sum.splits)
      show ?thesis
      proof (cases "occ = ?o")
        case True
        with at show ?thesis by blast
      next
        case False
        with o less.prems(2) have "occ \<in> set rest2" by simp
        from less.hyps [OF dl o(2) this] show ?thesis .
      qed
    qed
  qed
qed

lemma hd_split: "hd (split c v) = takeWhile (\<lambda>x. x \<noteq> c) v"
  by (induction v) (auto split: list.splits)

lemma split_Cons_other:
  "x \<noteq> c \<Longrightarrow> split c (x # xs) = (x # hd (split c xs)) # tl (split c xs)"
  by (cases "split c xs") auto

lemma split_append:
  "split c (u @ v) = butlast (split c u) @ (last (split c u) @ hd (split c v)) # tl (split c v)"
proof (induction u)
  case Nil
  show ?case by simp
next
  case (Cons x u)
  show ?case
  proof (cases "x = c")
    case True
    with Cons show ?thesis by simp
  next
    case False
    show ?thesis
    proof (cases "butlast (split c u)")
      case Nil
      then have "split c u = [last (split c u)]"
        by (metis append_butlast_last_id append_Nil split_nonempty)
      then obtain l where l: "split c u = [l]" by blast
      with Cons False show ?thesis
        by (simp add: split_Cons_other del: split.simps)
    next
      case (Cons b bs)
      then obtain l where l: "split c u = b # bs @ [l]"
        by (metis append_butlast_last_id append_Cons split_nonempty)
      with Cons.IH False show ?thesis
        by (simp add: split_Cons_other del: split.simps)
    qed
  qed
qed

lemma split_nth_boundary:
  "split c (u @ v) ! (length (split c u) - 1) = last (split c u) @ takeWhile (\<lambda>x. x \<noteq> c) v"
  by (simp add: split_append hd_split nth_append)

lemma split_boundary_less: "length (split c u) - 1 < length (split c (u @ v))"
  by (simp add: split_append)

lemma windowsToPosix_newline:
  "newline \<in> set (windowsToPosix raw) \<longleftrightarrow> newline \<in> set raw"
  by (induction raw) (auto simp: windowsToPosix_def newline_def backslash_def)

lemma length_windowsToPosix [simp]: "length (windowsToPosix raw) = length raw"
  by (simp add: windowsToPosix_def)

lemma occursAt_textInRange:
  assumes "occursAt s occ idx raw" and "newline \<notin> set (target occ)"
  shows "textInRange s (targetRange occ) = Some raw"
proof -
  from assms(1) have tk: "take (length raw) (drop idx s) = raw"
    and tg: "target occ = windowsToPosix raw"
    and ln: "line occ = length (split newline (take idx s)) - 1"
    and cl: "col occ = length (last (split newline (take idx s)))"
    by (simp_all add: occursAt_def)
  from tk obtain rest where d: "drop idx s = raw @ rest"
    by (metis append_take_drop_id)
  from assms(2) tg have nl: "newline \<notin> set raw"
    by (simp add: windowsToPosix_newline)
  have s: "s = take idx s @ raw @ rest"
    using d by (metis append_take_drop_id)
  let ?u = "take idx s"
  have "split newline (?u @ raw @ rest) ! (length (split newline ?u) - 1) =
      last (split newline ?u) @ takeWhile (\<lambda>x. x \<noteq> newline) (raw @ rest)"
    by (rule split_nth_boundary)
  moreover have "takeWhile (\<lambda>x. x \<noteq> newline) (raw @ rest) = raw @ takeWhile (\<lambda>x. x \<noteq> newline) rest"
    using nl by (induction raw) auto
  ultimately have lt: "split newline s ! line occ =
      last (split newline ?u) @ raw @ takeWhile (\<lambda>x. x \<noteq> newline) rest"
    using s ln by metis
  have lb: "line occ < length (split newline s)"
    using split_boundary_less [of newline ?u "raw @ rest"] s ln by metis
  from lt lb cl tg show ?thesis
    by (simp add: textInRange_def targetRange_def Let_def)
qed

subsection \<open>The range of an edit\<close>

lemma getMatchingLinks_occursAt:
  assumes "linkPattern r" and "getMatchingLinks r (Some c) flag = Inr occs" and "occ \<in> set occs"
  shows "\<exists>idx raw. occursAt c occ idx raw"
  using assms matchLoop_occursAt [OF assms(1), of c flag 0 occs occ]
  by (auto simp: getMatchingLinks_def split: if_splits)

lemma getAllLinks_occursAt:
  assumes "getAllLinks (Some c) = Inr occs" and "occ \<in> set occs"
  shows "\<exists>idx raw. occursAt c occ idx raw"
proof -
  from assms(1) obtain a b d where
    a: "getMatchingLinks mdLinkRegexGlobal (Some c) True = Inr a"
    and b: "getMatchingLinks imgRegex (Some c) True = Inr b"
    and d: "getMatchingLinks wikilinkRegex (Some c) False = Inr d"
    and occs: "occs = a @ b @ d"
    by (auto simp: getAllLinks_def split: sum.splits)
  from occs assms(2) consider "occ \<in> set a" | "occ \<in> set b" | "occ \<in> set d" by auto
  then show ?thesis
  proof cases
    case 1
    from getMatchingLinks_occursAt [OF patterns_linkPattern(1) a 1] show ?thesis .
  next
    case 2
    from getMatchingLinks_occursAt [OF patterns_linkPattern(2) b 2] show ?thesis .
  next
    case 3
    from getMatchingLinks_occursAt [OF patterns_linkPattern(3) d 3] show ?thesis .
  qed
qed

lemma getAllLinks_None: "getAllLinks None = Inr []"
  by (simp add: getAllLinks_def getMatchingLinks_def)


lemma repairEdit_range:
  "repairEdit L pb pa f occ = Some e \<Longrightarrow> edit_range e = targetRange occ \<and> edit_path e = path f"
  by (auto simp: repairEdit_def Let_def split: if_splits)

lemma occurrence_range_text:
  assumes "getAllLinks (Some c) = Inr occs" and "occ \<in> set occs"
  shows "(\<exists>idx raw. occursAt c occ idx raw) \<and>
     (newline \<notin> set (target occ) \<longrightarrow>
        (\<exists>raw. textInRange c (targetRange occ) = Some raw \<and> windowsToPosix raw = target occ))"
proof -
  from getAllLinks_occursAt [OF assms] obtain idx raw where at: "occursAt c occ idx raw"
    by blast
  then have "windowsToPosix raw = target occ" by (simp add: occursAt_def)
  with occursAt_textInRange [OF at] at show ?thesis by blast
qed



subsection \<open>Runs on concrete inputs\<close>

lemma run_rebase_moved_up:
  "pureGetEdits node (Rename \<lparr>pathBefore = ''a/x.md'', pathAfter = ''x.md''\<rparr>)
     [\<lparr>path = ''x.md'', content = ''[l](y.md)''\<rparr>] noOptions =
   Inr [\<lparr>edit_path = ''x.md'',
         edit_range = \<lparr>range_start = \<lparr>pos_line = 0, character = 4\<rparr>,
                       range_end = \<lparr>pos_line = 0, character = 8\<rparr>\<rparr>,
         newText = ''a/y.md'', requiresPathToExist = Some ''a/y.md''\<rparr>]"
  by code_simp



lemma run_included: "shouldIncludePath node noOptions p = Inr True"
  by (simp add: shouldIncludePath_def noOptions_def)

lemma run_self_link:
  "pureGetEdits node (Rename \<lparr>pathBefore = ''a.md'', pathAfter = ''b.md''\<rparr>)
     [\<lparr>path = ''b.md'', content = ''[self](a.md)''\<rparr>] noOptions =
   Inr [\<lparr>edit_path = ''b.md'',
         edit_range = \<lparr>range_start = \<lparr>pos_line = 0, character = 7\<rparr>,
                       range_end = \<lparr>pos_line = 0, character = 11\<rparr>\<rparr>,
         newText = ''b.md'', requiresPathToExist = None\<rparr>]"
  by code_simp

lemma run_self_link_phases:
  "posix_normalize node ''b.md'' = normalizedPath node ''b.md''"
  "rebaseEdits node (normalizedPath node ''a.md'') (normalizedPath node ''b.md'')
     (Some ''[self](a.md)'') = Inr []"
  "repairEdits node (normalizedPath node ''a.md'') (normalizedPath node ''b.md'')
     [\<lparr>path = ''b.md'', content = ''[self](a.md)''\<rparr>] =
   Inr [\<lparr>edit_path = ''b.md'',
         edit_range = \<lparr>range_start = \<lparr>pos_line = 0, character = 7\<rparr>,
                       range_end = \<lparr>pos_line = 0, character = 11\<rparr>\<rparr>,
         newText = ''b.md'', requiresPathToExist = None\<rparr>]"
  by code_simp+

lemma run_self_link_parts:
  "filteredFiles node noOptions [\<lparr>path = ''b.md'', content = ''[self](a.md)''\<rparr>] =
     Inr [\<lparr>path = ''b.md'', content = ''[self](a.md)''\<rparr>]"
  "getAllLinks (Some ''[self](a.md)'') =
     Inr [\<lparr>target = ''a.md'', line = 0, col = 7, replaceFileExtension = True\<rparr>]"
  "repairEdit node (normalizedPath node ''a.md'') (normalizedPath node ''b.md'')
     \<lparr>path = ''b.md'', content = ''[self](a.md)''\<rparr>
     \<lparr>target = ''a.md'', line = 0, col = 7, replaceFileExtension = True\<rparr> =
   Some \<lparr>edit_path = ''b.md'',
         edit_range = \<lparr>range_start = \<lparr>pos_line = 0, character = 7\<rparr>,
                       range_end = \<lparr>pos_line = 0, character = 11\<rparr>\<rparr>,
         newText = ''b.md'', requiresPathToExist = None\<rparr>"
  by code_simp+

lemma run_extension_case:
  "pureGetEdits node (Rename \<lparr>pathBefore = ''b.md'', pathAfter = ''b.MD''\<rparr>)
     [\<lparr>path = ''x.md'', content = ''see [[b]]''\<rparr>] noOptions =
   Inr [\<lparr>edit_path = ''x.md'',
         edit_range = \<lparr>range_start = \<lparr>pos_line = 0, character = 6\<rparr>,
                       range_end = \<lparr>pos_line = 0, character = 7\<rparr>\<rparr>,
         newText = ''b'', requiresPathToExist = None\<rparr>]"
  by code_simp

lemma run_extension_case_text:
  "textInRange ''see [[b]]''
     \<lparr>range_start = \<lparr>pos_line = 0, character = 6\<rparr>,
      range_end = \<lparr>pos_line = 0, character = 7\<rparr>\<rparr> = Some ''b''"
  by code_simp

subsection \<open>Fragments\<close>

lemma hasFragmentSuffix_iff:
  "hasFragmentSuffix s \<longleftrightarrow> (\<exists>T F. s = T @ CHR ''#'' # F \<and> F \<noteq> [] \<and> list_all fragChar F)"
proof (induction s)
  case Nil
  show ?case by simp
next
  case (Cons x xs)
  show ?case
  proof
    assume "hasFragmentSuffix (x # xs)"
    then consider "fragmentAt (x # xs)" | "hasFragmentSuffix xs" by auto
    then show "\<exists>T F. x # xs = T @ CHR ''#'' # F \<and> F \<noteq> [] \<and> list_all fragChar F"
    proof cases
      case 1
      then have "x # xs = [] @ CHR ''#'' # xs \<and> xs \<noteq> [] \<and> list_all fragChar xs"
        by (simp add: fragmentAt_def)
      then show ?thesis by blast
    next
      case 2
      with Cons obtain T F where "xs = T @ CHR ''#'' # F" "F \<noteq> []" "list_all fragChar F"
        by blast
      then have "x # xs = (x # T) @ CHR ''#'' # F \<and> F \<noteq> [] \<and> list_all fragChar F" by simp
      then show ?thesis by blast
    qed
  next
    assume "\<exists>T F. x # xs = T @ CHR ''#'' # F \<and> F \<noteq> [] \<and> list_all fragChar F"
    then obtain T F where e: "x # xs = T @ CHR ''#'' # F" and F: "F \<noteq> []" "list_all fragChar F"
      by blast
    show "hasFragmentSuffix (x # xs)"
    proof (cases T)
      case Nil
      with e F show ?thesis by (simp add: fragmentAt_def)
    next
      case (Cons t T')
      with e have "xs = T' @ CHR ''#'' # F" by simp
      with F Cons.IH show ?thesis by auto
    qed
  qed
qed

lemma hasTrailingFragment_iff:
  "hasTrailingFragment t \<longleftrightarrow>
     (\<exists>T F. t = T @ CHR ''#'' # F \<and> T \<noteq> [] \<and> F \<noteq> [] \<and> list_all fragChar F)"
proof (cases t)
  case Nil
  then show ?thesis by (simp add: hasTrailingFragment_def)
next
  case (Cons x xs)
  have "hasFragmentSuffix xs \<longleftrightarrow>
      (\<exists>T F. x # xs = T @ CHR ''#'' # F \<and> T \<noteq> [] \<and> F \<noteq> [] \<and> list_all fragChar F)"
  proof
    assume "hasFragmentSuffix xs"
    then obtain T F where "xs = T @ CHR ''#'' # F" "F \<noteq> []" "list_all fragChar F"
      by (auto simp: hasFragmentSuffix_iff)
    then have "x # xs = (x # T) @ CHR ''#'' # F \<and> x # T \<noteq> [] \<and> F \<noteq> [] \<and> list_all fragChar F"
      by simp
    then show "\<exists>T F. x # xs = T @ CHR ''#'' # F \<and> T \<noteq> [] \<and> F \<noteq> [] \<and> list_all fragChar F"
      by blast
  next
    assume "\<exists>T F. x # xs = T @ CHR ''#'' # F \<and> T \<noteq> [] \<and> F \<noteq> [] \<and> list_all fragChar F"
    then obtain T F where e: "x # xs = T @ CHR ''#'' # F" "T \<noteq> []" and F: "F \<noteq> []" "list_all fragChar F"
      by blast
    then obtain T' where "T = x # T'" by (cases T) auto
    with e have "xs = T' @ CHR ''#'' # F" by simp
    with F show "hasFragmentSuffix xs" by (auto simp: hasFragmentSuffix_iff)
  qed
  with Cons show ?thesis by (simp add: hasTrailingFragment_def)
qed

text \<open>The remainders a pattern can leave do not depend on the captures, nor, without
  an anchor, on the length of the input.\<close>

lemma concat_map_fst_cong:
  assumes "map fst xs = map fst ys"
    and "\<And>s k k'. map fst (f (s, k)) = map fst (g (s, k'))"
  shows "map fst (concat (map f xs)) = map fst (concat (map g ys))"
  using assms(1)
proof (induction xs arbitrary: ys)
  case Nil
  then show ?case by simp
next
  case (Cons x xs)
  then obtain y ys' where ys: "ys = y # ys'" "fst x = fst y" "map fst xs = map fst ys'"
    by (cases ys) auto
  from ys(2) assms(2) [of "fst x" "snd x" "snd y"] have "map fst (f x) = map fst (g y)"
    by (metis prod.collapse)
  with Cons.IH [OF ys(3)] ys(1) show ?case by simp
qed

lemma rxm_fst:
  "\<not> anchored r \<Longrightarrow> map fst (rxm n r (s, k)) = map fst (rxm n' r (s, k'))"
proof (induction r arbitrary: s k k')
  case (Seq a b)
  then have a: "map fst (rxm n a (s, k)) = map fst (rxm n' a (s, k'))"
    and b: "\<And>s k k'. map fst (rxm n b (s, k)) = map fst (rxm n' b (s, k'))"
    by simp_all
  from concat_map_fst_cong [of "rxm n a (s, k)" "rxm n' a (s, k')" "rxm n b" "rxm n' b", OF a b]
  show ?case by simp
next
  case (Grp g r)
  then have "map fst (rxm n r (s, k)) = map fst (rxm n' r (s, k'))" by simp
  then show ?case by (simp add: comp_def case_prod_unfold)
next
  case (Opt r)
  then have "map fst (rxm n r (s, k)) = map fst (rxm n' r (s, k'))" by simp
  then show ?case by simp
qed (auto simp: comp_def split: list.splits)

lemma accepts_iff: "\<not> anchored r \<Longrightarrow> accepts r s \<longleftrightarrow> rxm n r (s, k) \<noteq> []"
  using rxm_fst [of r 0 s Map.empty n k] unfolding accepts_def
  by (metis map_is_Nil_conv)

subsection \<open>The order in which a quantifier tries its matches\<close>

lemma starLazy_eq:
  "starLazy P s = map (\<lambda>j. drop j s) [0..<Suc (length (takeWhile P s))]"
proof (induction s)
  case Nil
  show ?case by simp
next
  case (Cons x xs)
  show ?case
  proof (cases "P x")
    case True
    have "[0..<Suc (Suc (length (takeWhile P xs)))] = 0 # map Suc [0..<Suc (length (takeWhile P xs))]"
      by (metis map_Suc_upt upt_conv_Cons zero_less_Suc)
    with True Cons show ?thesis by (simp add: comp_def del: upt_Suc)
  next
    case False
    then show ?thesis by simp
  qed
qed

lemma set_starGreedy:
  "set (starGreedy P s) = {drop j s | j. j \<le> length (takeWhile P s)}"
proof (induction s)
  case Nil
  show ?case by auto
next
  case (Cons x xs)
  show ?case
  proof (cases "P x")
    case True
    have "{drop j (x # xs) | j. j \<le> Suc (length (takeWhile P xs))} =
        insert (x # xs) {drop j xs | j. j \<le> length (takeWhile P xs)}" (is "?A = ?B")
    proof
      show "?A \<subseteq> ?B"
      proof
        fix u assume "u \<in> ?A"
        then obtain j where j: "u = drop j (x # xs)" "j \<le> Suc (length (takeWhile P xs))" by blast
        then show "u \<in> ?B" by (cases j) auto
      qed
      show "?B \<subseteq> ?A"
      proof
        fix u assume "u \<in> ?B"
        then consider "u = x # xs" | j where "u = drop j xs" "j \<le> length (takeWhile P xs)" by blast
        then show "u \<in> ?A"
        proof cases
          case 1
          then have "u = drop 0 (x # xs) \<and> 0 \<le> Suc (length (takeWhile P xs))" by simp
          then show ?thesis by blast
        next
          case 2
          then have "u = drop (Suc j) (x # xs) \<and> Suc j \<le> Suc (length (takeWhile P xs))" by simp
          then show ?thesis by blast
        qed
      qed
    qed
    with True Cons show ?thesis by simp
  next
    case False
    then show ?thesis by auto
  qed
qed

lemma rxm_PlusLazy_eq:
  "rxm n (PlusLazy P) (s, k) = map (\<lambda>j. (drop j s, k)) [1..<Suc (length (takeWhile P s))]"
proof (cases s)
  case Nil
  then show ?thesis by simp
next
  case (Cons x xs)
  show ?thesis
  proof (cases "P x")
    case True
    have "[1..<Suc (Suc (length (takeWhile P xs)))] = map Suc [0..<Suc (length (takeWhile P xs))]"
      by (metis One_nat_def map_Suc_upt)
    with True Cons show ?thesis by (simp add: starLazy_eq comp_def del: upt_Suc)
  next
    case False
    with Cons show ?thesis by simp
  qed
qed

lemma rxm_Plus_set:
  "fst ` set (rxm n (Plus P) (s, k)) = {drop j s | j. 1 \<le> j \<and> j \<le> length (takeWhile P s)}"
proof (cases s)
  case Nil
  then show ?thesis by auto
next
  case (Cons x xs)
  show ?thesis
  proof (cases "P x")
    case True
    have "{drop j (x # xs) | j. 1 \<le> j \<and> j \<le> Suc (length (takeWhile P xs))} =
        {drop j xs | j. j \<le> length (takeWhile P xs)}" (is "?A = ?B")
    proof
      show "?A \<subseteq> ?B"
      proof
        fix u assume "u \<in> ?A"
        then obtain j where j: "u = drop j (x # xs)" "1 \<le> j" "j \<le> Suc (length (takeWhile P xs))"
          by blast
        then show "u \<in> ?B" by (cases j) auto
      qed
      show "?B \<subseteq> ?A"
      proof
        fix u assume "u \<in> ?B"
        then obtain j where "u = drop j xs" "j \<le> length (takeWhile P xs)" by blast
        then have "u = drop (Suc j) (x # xs) \<and> 1 \<le> Suc j \<and> Suc j \<le> Suc (length (takeWhile P xs))"
          by simp
        then show "u \<in> ?A" by blast
      qed
    qed
    with True Cons show ?thesis by (simp add: image_image set_starGreedy)
  next
    case False
    with Cons show ?thesis by auto
  qed
qed

lemma concat_map_first:
  assumes "concat (map f xs) = y # ys"
  shows "\<exists>pre x post zs. xs = pre @ x # post \<and> (\<forall>p \<in> set pre. f p = []) \<and> f x = y # zs"
  using assms
proof (induction xs)
  case Nil
  then show ?case by simp
next
  case (Cons x xs)
  show ?case
  proof (cases "f x")
    case Nil
    with Cons.prems have "concat (map f xs) = y # ys" by simp
    from Cons.IH [OF this] obtain pre x' post zs where
      "xs = pre @ x' # post" "\<forall>p \<in> set pre. f p = []" "f x' = y # zs"
      by blast
    with Nil have "x # xs = (x # pre) @ x' # post \<and> (\<forall>p \<in> set (x # pre). f p = []) \<and> f x' = y # zs"
      by simp
    then show ?thesis by blast
  next
    case (Cons z zs)
    with Cons.prems have "f x = y # zs" by simp
    then have "x # xs = [] @ x # xs \<and> (\<forall>p \<in> set []. f p = []) \<and> f x = y # zs" by simp
    then show ?thesis by blast
  qed
qed

lemma map_upt_split:
  assumes "map g [1..<Suc m] = pre @ x # post"
  shows "\<exists>j. 1 \<le> j \<and> j \<le> m \<and> x = g j \<and> pre = map g [1..<j]"
proof -
  let ?j = "Suc (length pre)"
  from assms have "length (map g [1..<Suc m]) = length (pre @ x # post)" by simp
  then have len: "length pre < m" by (simp del: upt_Suc)
  from assms have "(map g [1..<Suc m]) ! length pre = x" by simp
  with len have x: "x = g ?j" by (simp add: nth_append del: upt_Suc)
  from assms have "take (length pre) (map g [1..<Suc m]) = pre" by simp
  with len have "pre = map g [1..<?j]"
    by (simp add: take_map take_upt del: upt_Suc)
  with x len have "1 \<le> ?j \<and> ?j \<le> m \<and> x = g ?j \<and> pre = map g [1..<?j]"
    by simp
  then show ?thesis by blast
qed

subsection \<open>The first match splits the fragment off\<close>

text \<open>The lazy group 2 takes the shortest text after which the rest of the pattern
  matches. Were that text to end in a fragment, the rest would match already where the
  fragment starts.\<close>

lemma concat_nonempty: "concat xs \<noteq> [] \<longleftrightarrow> (\<exists>x \<in> set xs. x \<noteq> [])"
  by (induction xs) auto

lemma takeWhile_prefix_all:
  "F \<noteq> [] \<and> list_all P F \<and> xs = F @ rest \<Longrightarrow>
     1 \<le> length F \<and> length F \<le> length (takeWhile P xs) \<and> drop (length F) xs = rest"
proof -
  assume a: "F \<noteq> [] \<and> list_all P F \<and> xs = F @ rest"
  then have "takeWhile P xs = F @ takeWhile P rest"
    by (simp add: list_all_iff)
  with a show ?thesis by (cases F) auto
qed

lemma take_le_takeWhile:
  "j \<le> length (takeWhile P xs) \<Longrightarrow> list_all P (take j xs)"
proof -
  assume "j \<le> length (takeWhile P xs)"
  then have "take j xs = take j (takeWhile P xs)"
    by (metis takeWhile_eq_take take_take min.absorb1 min.commute)
  then show ?thesis
    by (metis in_set_takeD list_all_iff set_takeWhileD)
qed

lemma fragment_results:
  "fst ` set (rxm n (Grp 3 (Seq (Lit (CHR ''#'')) (Plus fragChar))) (s, k)) =
     {rest. \<exists>F. s = CHR ''#'' # F @ rest \<and> F \<noteq> [] \<and> list_all fragChar F}" (is "?A = ?B")
proof (cases s)
  case Nil
  then show ?thesis by simp
next
  case (Cons x xs)
  show ?thesis
  proof (cases "x = CHR ''#''")
    case False
    with Cons show ?thesis by simp
  next
    case True
    have "?A = fst ` set (rxm n (Plus fragChar) (xs, k))"
      using Cons True by (simp add: image_image case_prod_unfold)
    also have "\<dots> = {drop j xs | j. 1 \<le> j \<and> j \<le> length (takeWhile fragChar xs)}"
      by (rule rxm_Plus_set)
    also have "\<dots> = {rest. \<exists>F. xs = F @ rest \<and> F \<noteq> [] \<and> list_all fragChar F}" (is "?C = ?D")
    proof
      show "?C \<subseteq> ?D"
      proof
        fix u assume "u \<in> ?C"
        then obtain j where j: "u = drop j xs" "1 \<le> j" "j \<le> length (takeWhile fragChar xs)"
          by blast
        from j(3) have "j \<le> length xs"
          by (meson le_trans length_takeWhile_le)
        with j(2) have "take j xs \<noteq> []" by auto
        with j(1) take_le_takeWhile [OF j(3)]
        have "xs = take j xs @ u \<and> take j xs \<noteq> [] \<and> list_all fragChar (take j xs)" by simp
        then show "u \<in> ?D" by blast
      qed
      show "?D \<subseteq> ?C"
      proof
        fix u assume "u \<in> ?D"
        then obtain F where "F \<noteq> [] \<and> list_all fragChar F \<and> xs = F @ u" by blast
        from takeWhile_prefix_all [OF this]
        have "u = drop (length F) xs \<and> 1 \<le> length F \<and> length F \<le> length (takeWhile fragChar xs)"
          by simp
        then show "u \<in> ?C" by blast
      qed
    qed
    finally show ?thesis using Cons True by simp
  qed
qed

lemma tail_accepts:
  assumes "\<not> anchored close"
  shows "accepts (Seq fragmentGroup close) s \<longleftrightarrow>
     accepts close s \<or>
     (\<exists>F rest. s = CHR ''#'' # F @ rest \<and> F \<noteq> [] \<and> list_all fragChar F \<and> accepts close rest)"
proof -
  let ?G = "Grp 3 (Seq (Lit (CHR ''#'')) (Plus fragChar))"
  have "accepts (Seq fragmentGroup close) s \<longleftrightarrow>
      (\<exists>st \<in> set (rxm 0 ?G (s, Map.empty) @ [(s, Map.empty)]). rxm 0 close st \<noteq> [])"
    by (auto simp add: accepts_def fragmentGroup_def concat_nonempty simp del: rxm.simps(5))
  also have "\<dots> \<longleftrightarrow> accepts close s \<or> (\<exists>rest \<in> fst ` set (rxm 0 ?G (s, Map.empty)). accepts close rest)"
  proof -
    have eq: "rxm 0 close st \<noteq> [] \<longleftrightarrow> accepts close (fst st)" for st
      using accepts_iff [OF assms, of "fst st" 0 "snd st"] by simp
    show ?thesis unfolding eq by auto
  qed
  also have "\<dots> \<longleftrightarrow> accepts close s \<or>
     (\<exists>F rest. s = CHR ''#'' # F @ rest \<and> F \<noteq> [] \<and> list_all fragChar F \<and> accepts close rest)"
    unfolding fragment_results by blast
  finally show ?thesis .
qed

lemma lazy_group_first:
  assumes h: "rxm n (Seq (Grp 2 (PlusLazy P)) rst) (s1, k1) = (s', k') # rest"
    and nm: "\<not> mentions 2 rst" and na: "\<not> anchored rst"
  shows "\<exists>j. 1 \<le> j \<and> j \<le> length s1 \<and> k' 2 = Some (take j s1) \<and> accepts rst (drop j s1) \<and>
     (\<forall>i. 1 \<le> i \<and> i < j \<longrightarrow> \<not> accepts rst (drop i s1))"
proof -
  let ?m = "length (takeWhile P s1)"
  let ?g = "\<lambda>j. (drop j s1, k1(2 \<mapsto> take (length s1 - length (drop j s1)) s1))"
  have g: "rxm n (Grp 2 (PlusLazy P)) (s1, k1) = map ?g [1..<Suc ?m]"
    by (simp add: rxm_PlusLazy_eq comp_def del: upt_Suc rxm.simps(10))
  from h have "concat (map (rxm n rst) (rxm n (Grp 2 (PlusLazy P)) (s1, k1))) = (s', k') # rest"
    by simp
  from concat_map_first [OF this] obtain pre x post zs where
    sp: "rxm n (Grp 2 (PlusLazy P)) (s1, k1) = pre @ x # post"
    and em: "\<forall>p \<in> set pre. rxm n rst p = []" and hd: "rxm n rst x = (s', k') # zs"
    by blast
  from sp g have "map ?g [1..<Suc ?m] = pre @ x # post" by simp
  from map_upt_split [OF this] obtain j where
    j: "1 \<le> j" "j \<le> ?m" "x = ?g j" "pre = map ?g [1..<j]"
    by blast
  have ml: "?m \<le> length s1" by (rule length_takeWhile_le)
  with j(2) have jl: "j \<le> length s1" by simp
  then have x: "x = (drop j s1, k1(2 \<mapsto> take j s1))" using j(3) by simp
  from hd x have mem: "(s', k') \<in> set (rxm n rst (drop j s1, k1(2 \<mapsto> take j s1)))" by simp
  from rxm_frame [OF nm mem] have k2: "k' 2 = Some (take j s1)" by simp
  from hd x have ac: "accepts rst (drop j s1)"
    using accepts_iff [OF na, of "drop j s1" n "k1(2 \<mapsto> take j s1)"] by simp
  have "\<not> accepts rst (drop i s1)" if "1 \<le> i" "i < j" for i
  proof -
    from that j(4) have "?g i \<in> set pre" by auto
    with em have "rxm n rst (?g i) = []" by blast
    with accepts_iff [OF na, of "drop i s1" n] show ?thesis by blast
  qed
  with j(1) jl k2 ac show ?thesis by blast
qed

lemma fragChar_hash: "fragChar (CHR ''#'')"
  by (simp add: fragChar_def isSpace_def)

lemma target_has_no_fragment:
  assumes h: "rxm n (Seq (Grp 1 a) (Seq (Grp 2 (PlusLazy P)) (Seq fragmentGroup close))) (s, k) =
      (s', k') # rest"
    and na: "\<not> anchored close" and nm: "\<not> mentions 2 close"
  shows "\<exists>t. k' 2 = Some t \<and> \<not> hasTrailingFragment t"
proof -
  let ?tl = "Seq fragmentGroup close"
  from h have "concat (map (rxm n (Seq (Grp 2 (PlusLazy P)) ?tl)) (rxm n (Grp 1 a) (s, k))) =
      (s', k') # rest"
    by simp
  from concat_map_first [OF this] obtain x zs where
    "rxm n (Seq (Grp 2 (PlusLazy P)) ?tl) x = (s', k') # zs"
    by blast
  then obtain s1 k1 where hd: "rxm n (Seq (Grp 2 (PlusLazy P)) ?tl) (s1, k1) = (s', k') # zs"
    by (cases x) auto
  have nm': "\<not> mentions 2 ?tl" and na': "\<not> anchored ?tl"
    using na nm by (simp_all add: fragmentGroup_def)
  from lazy_group_first [OF hd nm' na'] obtain j where
    j: "1 \<le> j" "j \<le> length s1" "k' 2 = Some (take j s1)" "accepts ?tl (drop j s1)"
    and first: "\<forall>i. 1 \<le> i \<and> i < j \<longrightarrow> \<not> accepts ?tl (drop i s1)"
    by blast
  have "\<not> hasTrailingFragment (take j s1)"
  proof
    assume "hasTrailingFragment (take j s1)"
    then obtain T F where tf: "take j s1 = T @ CHR ''#'' # F" "T \<noteq> []" "F \<noteq> []" "list_all fragChar F"
      by (auto simp: hasTrailingFragment_iff)
    let ?i = "length T"
    from tf(1) have "length (take j s1) = length (T @ CHR ''#'' # F)" by simp
    with j(2) have lt: "?i < j" by simp
    from tf(2) have one: "1 \<le> ?i" by (cases T) auto
    have "s1 = take j s1 @ drop j s1" by simp
    with tf(1) have "s1 = T @ CHR ''#'' # F @ drop j s1" by simp
    then have "drop ?i s1 = drop ?i (T @ CHR ''#'' # F @ drop j s1)" by simp
    then have di: "drop ?i s1 = CHR ''#'' # F @ drop j s1" by simp
    from j(4) tail_accepts [OF na, of "drop j s1"] consider
      "accepts close (drop j s1)"
      | G rest' where "drop j s1 = CHR ''#'' # G @ rest'" "G \<noteq> []" "list_all fragChar G"
        "accepts close rest'"
      by blast
    then have "accepts ?tl (drop ?i s1)"
    proof cases
      case 1
      with di tf(3,4) show ?thesis
        using tail_accepts [OF na, of "drop ?i s1"] by blast
    next
      case 2
      with di have "drop ?i s1 = CHR ''#'' # (F @ CHR ''#'' # G) @ rest'" by simp
      moreover have "F @ CHR ''#'' # G \<noteq> []" using tf(3) by simp
      moreover have "list_all fragChar (F @ CHR ''#'' # G)"
        using tf(4) 2(3) fragChar_hash by simp
      ultimately show ?thesis
        using 2(4) tail_accepts [OF na, of "drop ?i s1"] by blast
    qed
    with first one lt show False by blast
  qed
  with j(3) show ?thesis by blast
qed

lemma matchLoop_occ_match:
  "matchLoop r s flag pos = Inr occs \<Longrightarrow> occ \<in> set occs \<Longrightarrow>
     \<exists>m i p t. exec r s i = Some m \<and> groups m 1 = Some p \<and> groups m 2 = Some t \<and>
       target occ = windowsToPosix t \<and>
       line occ = length (split newline (take (index m + length p) s)) - 1 \<and>
       col occ = length (last (split newline (take (index m + length p) s)))"
proof (induction "length s - pos" arbitrary: pos occs rule: less_induct)
  case less
  show ?case
  proof (cases "exec r s pos")
    case None
    with less.prems show ?thesis by (subst (asm) matchLoop.simps) auto
  next
    case (Some m)
    show ?thesis
    proof (cases "lastIndex m \<le> pos")
      case True
      with less.prems Some show ?thesis
        by (subst (asm) matchLoop.simps) (auto simp: Let_def split: option.splits)
    next
      case False
      with exec_lastIndex_le [OF Some] have dl: "length s - lastIndex m < length s - pos"
        by simp
      from less.prems(1) Some False obtain p t rest2 where
        g: "groups m 1 = Some p" "groups m 2 = Some t"
        and o: "occs = \<lparr>target = windowsToPosix t,
                line = length (split newline (take (index m + length p) s)) - 1,
                col = length (split newline (take (index m + length p) s) !
                        (length (split newline (take (index m + length p) s)) - 1)),
                replaceFileExtension = flag\<rparr> # rest2"
          "matchLoop r s flag (lastIndex m) = Inr rest2"
        by (subst (asm) matchLoop.simps) (auto simp: Let_def split: option.splits sum.splits)
      from less.prems(2) o(1) consider
        "occ = \<lparr>target = windowsToPosix t,
                line = length (split newline (take (index m + length p) s)) - 1,
                col = length (split newline (take (index m + length p) s) !
                        (length (split newline (take (index m + length p) s)) - 1)),
                replaceFileExtension = flag\<rparr>"
        | "occ \<in> set rest2"
        by auto
      then show ?thesis
      proof cases
        case 1
        with Some g show ?thesis
          by (intro exI [of _ m] exI [of _ pos] exI [of _ p] exI [of _ t])
            (simp add: last_conv_nth)
      next
        case 2
        from less.hyps [OF dl o(2) 2] show ?thesis .
      qed
    qed
  qed
qed

lemma hasTrailingFragment_posix:
  assumes "hasTrailingFragment (windowsToPosix raw)"
  shows "hasTrailingFragment raw"
proof -
  let ?f = "\<lambda>c. if c = backslash then CHR ''/'' else c"
  from assms obtain T F where
    e: "map ?f raw = T @ CHR ''#'' # F" and T: "T \<noteq> []" and F: "F \<noteq> []" "list_all fragChar F"
    by (auto simp: hasTrailingFragment_iff windowsToPosix_def)
  from e obtain T0 c F0 where raw: "raw = T0 @ c # F0" and m: "map ?f T0 = T" "?f c = CHR ''#''" "map ?f F0 = F"
    by (auto simp: map_eq_append_conv map_eq_Cons_conv)
  from m(2) have c: "c = CHR ''#''" by (auto split: if_splits)
  have "fragChar x" if "x \<in> set F0" for x
  proof -
    from that m(3) F(2) have fx: "fragChar (?f x)" by (auto simp: list_all_iff)
    then have "x \<noteq> backslash" by (auto simp: fragChar_def)
    with fx show ?thesis by simp
  qed
  then have "list_all fragChar F0" by (simp add: list_all_iff)
  moreover from m T F have "T0 \<noteq> []" "F0 \<noteq> []" by auto
  ultimately show ?thesis using raw c by (auto simp: hasTrailingFragment_iff)
qed

lemma img_groups:
  assumes "(s', k') \<in> set (rxm n imgRegex (s, k))"
  shows "\<exists>p t q rest. s = p @ t @ q # rest \<and> k' 1 = Some p \<and> k' 2 = Some t \<and>
     list_all notQuote t \<and> isQuote q"
proof -
  obtain a c where r: "imgRegex = Seq (Grp 1 a) (Seq (Grp 2 (StarLazy notQuote)) (Seq (Cls isQuote) c))"
    and nc: "\<not> mentions 1 c" "\<not> mentions 2 c"
    by (simp add: imgRegex_def)
  from assms have "(s', k') \<in> set (rxm n (Seq (Grp 1 a) (Seq (Grp 2 (StarLazy notQuote))
      (Seq (Cls isQuote) c))) (s, k))"
    unfolding r .
  then have "\<exists>s1 k1 s2 k2 s3 k3. (s1, k1) \<in> set (rxm n (Grp 1 a) (s, k)) \<and>
      (s2, k2) \<in> set (rxm n (Grp 2 (StarLazy notQuote)) (s1, k1)) \<and>
      (s3, k3) \<in> set (rxm n (Cls isQuote) (s2, k2)) \<and> (s', k') \<in> set (rxm n c (s3, k3))"
    by (simp only: rxm_Seq_mem) blast
  then obtain s1 k1 s2 k2 s3 k3 where
    1: "(s1, k1) \<in> set (rxm n (Grp 1 a) (s, k))"
    and 2: "(s2, k2) \<in> set (rxm n (Grp 2 (StarLazy notQuote)) (s1, k1))"
    and 3: "(s3, k3) \<in> set (rxm n (Cls isQuote) (s2, k2))"
    and 4: "(s', k') \<in> set (rxm n c (s3, k3))"
    by blast
  from rxm_Grp [OF 1] obtain p where p: "s = p @ s1" "k1 1 = Some p" by blast
  from 2 have "s2 \<in> set (starLazy notQuote s1)" and k2: "k2 = k1(2 \<mapsto> take (length s1 - length s2) s1)"
    by auto
  then obtain j where j: "s2 = drop j s1" "j \<le> length (takeWhile notQuote s1)"
    by (auto simp: starLazy_eq simp del: upt_Suc)
  from j(2) have jl: "j \<le> length s1" by (meson le_trans length_takeWhile_le)
  with j(1) k2 have k22: "k2 2 = Some (take j s1)" and k21: "k2 1 = Some p"
    using p(2) by simp_all
  from 3 obtain q where q: "s2 = q # s3" "isQuote q" "k3 = k2"
    by (auto split: list.splits if_splits)
  from rxm_frame [OF nc(1) 4] rxm_frame [OF nc(2) 4] q(3) k21 k22
  have k': "k' 1 = Some p" "k' 2 = Some (take j s1)" by simp_all
  have "s1 = take j s1 @ drop j s1" by simp
  with j(1) q(1) p(1) have "s = p @ take j s1 @ q # s3" by simp
  with k' q(2) take_le_takeWhile [OF j(2)] show ?thesis by blast
qed

lemma getMatchingLinks_occ_match:
  assumes "getMatchingLinks r fileContent flag = Inr occs" and "occ \<in> set occs"
  obtains c m s' rest p t where "fileContent = Some c"
    and "rxm (length c) r (drop (index (m::rmatch)) c, Map.empty) = (s', groups m) # rest"
    and "index m \<le> length c"
    and "groups m 1 = Some p" and "groups m 2 = Some t"
    and "target occ = windowsToPosix t"
    and "line occ = length (split newline (take (index m + length p) c)) - 1"
    and "col occ = length (last (split newline (take (index m + length p) c)))"
proof -
  from assms obtain c where c: "fileContent = Some c" "matchLoop r c flag 0 = Inr occs"
    by (auto simp: getMatchingLinks_def split: option.splits if_splits)
  from matchLoop_occ_match [OF c(2) assms(2)] obtain m i p t where
    m: "exec r c i = Some m" "groups m 1 = Some p" "groups m 2 = Some t"
      "target occ = windowsToPosix t"
      "line occ = length (split newline (take (index m + length p) c)) - 1"
      "col occ = length (last (split newline (take (index m + length p) c)))"
    by blast
  from exec_Some [OF m(1)] obtain s' rest where
    e: "rxm (length c) r (drop (index m) c, Map.empty) = (s', groups m) # rest"
    "index m \<le> length c"
    by blast
  show thesis
    by (rule that [OF c(1) e m(2-6)])
qed

lemma scanned_target_has_no_fragment:
  assumes "getMatchingLinks (Seq (Grp 1 a) (Seq (Grp 2 (PlusLazy P)) (Seq fragmentGroup close)))
      fileContent flag = Inr occs"
    and "occ \<in> set occs" and "\<not> anchored close" and "\<not> mentions 2 close"
  shows "\<not> hasTrailingFragment (target occ)"
proof -
  from assms(1,2) obtain c m s' rest t where
    h: "rxm (length c) (Seq (Grp 1 a) (Seq (Grp 2 (PlusLazy P)) (Seq fragmentGroup close)))
        (drop (index (m::rmatch)) c, Map.empty) = (s', groups m) # rest"
    and t: "groups m 2 = Some t" "target occ = windowsToPosix t"
    by (rule getMatchingLinks_occ_match)
  from target_has_no_fragment [OF h assms(3,4)] t(1) have "\<not> hasTrailingFragment t" by simp
  with hasTrailingFragment_posix [of t] t(2) show ?thesis by metis
qed

lemma img_target_is_attribute_value:
  assumes "getMatchingLinks imgRegex fileContent flag = Inr occs" and "occ \<in> set occs"
  shows "\<exists>c idx raw. fileContent = Some c \<and> occursAt c occ idx raw \<and> list_all notQuote raw \<and>
     idx + length raw < length c \<and> isQuote (c ! (idx + length raw))"
proof -
  from assms obtain c m s' rest p t where
    c: "fileContent = Some c"
    and h: "rxm (length c) imgRegex (drop (index (m::rmatch)) c, Map.empty) = (s', groups m) # rest"
    and i: "index m \<le> length c"
    and g: "groups m 1 = Some p" "groups m 2 = Some t"
    and o: "target occ = windowsToPosix t"
      "line occ = length (split newline (take (index m + length p) c)) - 1"
      "col occ = length (last (split newline (take (index m + length p) c)))"
    by (rule getMatchingLinks_occ_match)
  from h have "(s', groups m) \<in> set (rxm (length c) imgRegex (drop (index m) c, Map.empty))"
    by simp
  from img_groups [OF this] g obtain q rest' where
    d: "drop (index m) c = p @ t @ q # rest'" and q: "list_all notQuote t" "isQuote q"
    by auto
  let ?idx = "index m + length p"
  from d have "drop (length p) (drop (index m) c) = t @ q # rest'" by simp
  then have dd: "drop ?idx c = t @ q # rest'" by (simp add: add.commute)
  from d have "length (drop (index m) c) = length (p @ t @ q # rest')" by simp
  with i have len: "?idx + length t < length c" by simp
  from dd have "drop (length t) (drop ?idx c) = q # rest'" by simp
  then have "drop (?idx + length t) c = q # rest'" by (simp add: add.commute)
  then have "c ! (?idx + length t) = q"
    by (rule nth_via_drop)
  with dd len o q have "occursAt c occ ?idx t \<and> list_all notQuote t \<and>
     ?idx + length t < length c \<and> isQuote (c ! (?idx + length t))"
    by (simp add: occursAt_def)
  with c have "fileContent = Some c \<and> occursAt c occ ?idx t \<and> list_all notQuote t \<and>
     ?idx + length t < length c \<and> isQuote (c ! (?idx + length t))"
    by simp
  then show ?thesis by blast
qed

lemma run_fragment_md:
  "getMatchingLinks mdLinkRegexGlobal (Some ''[a](b.md#frag) [[w#f]]'') True =
     Inr [\<lparr>target = ''b.md'', line = 0, col = 4, replaceFileExtension = True\<rparr>]"
  "getMatchingLinks wikilinkRegex (Some ''[a](b.md#frag) [[w#f]]'') False =
     Inr [\<lparr>target = ''w'', line = 0, col = 17, replaceFileExtension = False\<rparr>]"
  by code_simp+

lemma run_fragment_img:
  "getAllLinks (Some (''<img src='' @ [dquote] @ ''a.png#frag'' @ [dquote] @ ''>'')) =
     Inr [\<lparr>target = ''a.png#frag'', line = 0, col = 10, replaceFileExtension = True\<rparr>]"
  "hasTrailingFragment ''a.png#frag''"
  "getMatchingLinks imgRegex (Some (''<img src='' @ [dquote] @ ''a.png#frag'' @ [dquote] @ ''>'')) True =
     Inr [\<lparr>target = ''a.png#frag'', line = 0, col = 10, replaceFileExtension = True\<rparr>]"
  by code_simp+

text \<open>A link that is a fragment and nothing else: group 2 needs one character at
  least, so the fragment is the target.\<close>

lemma run_fragment_only:
  "getAllLinks (Some ''[a](#frag)'') =
     Inr [\<lparr>target = ''#frag'', line = 0, col = 4, replaceFileExtension = True\<rparr>]"
  by code_simp

text \<open>A target that runs over a line feed: the range ends on the line where the target
  starts, past the end of that line.\<close>

lemma run_multiline_target:
  "pureGetEdits node (Rename \<lparr>pathBefore = ''a/x.md'', pathAfter = ''x.md''\<rparr>)
     [\<lparr>path = ''x.md'', content = ''[l](y'' @ [newline] @ ''z.md)''\<rparr>] noOptions =
   Inr [\<lparr>edit_path = ''x.md'',
         edit_range = \<lparr>range_start = \<lparr>pos_line = 0, character = 4\<rparr>,
                       range_end = \<lparr>pos_line = 0, character = 10\<rparr>\<rparr>,
         newText = ''a/y'' @ [newline] @ ''z.md'',
         requiresPathToExist = Some (''a/y'' @ [newline] @ ''z.md'')\<rparr>]"
  "split newline (''[l](y'' @ [newline] @ ''z.md)'') = [''[l](y'', ''z.md)'']"
  "textInRange (''[l](y'' @ [newline] @ ''z.md)'')
     \<lparr>range_start = \<lparr>pos_line = 0, character = 4\<rparr>,
      range_end = \<lparr>pos_line = 0, character = 10\<rparr>\<rparr> = None"
  by code_simp+

subsection \<open>The heading pattern\<close>

text \<open>\<open>headingRegex\<close> matches at the start of a text or not at all, and reads what
  \<open>headingParts\<close> reads: the greedy \<^verbatim>\<open>#+\<close> has to take every \<^verbatim>\<open>#\<close>, since a
  space must follow.\<close>

lemma starGreedy_eq:
  "starGreedy P s = map (\<lambda>j. drop j s) (rev [0..<Suc (length (takeWhile P s))])"
proof (induction s)
  case Nil
  show ?case by simp
next
  case (Cons x xs)
  show ?case
  proof (cases "P x")
    case True
    have "[0..<Suc (Suc (length (takeWhile P xs)))] = 0 # map Suc [0..<Suc (length (takeWhile P xs))]"
      by (metis map_Suc_upt upt_conv_Cons zero_less_Suc)
    with True Cons show ?thesis by (simp add: comp_def rev_map del: upt_Suc)
  next
    case False
    then show ?thesis by simp
  qed
qed

lemma rxm_Plus_eq:
  "rxm n (Plus P) (s, k) = map (\<lambda>j. (drop j s, k)) (rev [1..<Suc (length (takeWhile P s))])"
proof (cases s)
  case Nil
  then show ?thesis by simp
next
  case (Cons x xs)
  show ?thesis
  proof (cases "P x")
    case True
    have "[1..<Suc (Suc (length (takeWhile P xs)))] = map Suc [0..<Suc (length (takeWhile P xs))]"
      by (metis One_nat_def map_Suc_upt)
    with True Cons show ?thesis by (simp add: starGreedy_eq comp_def rev_map del: upt_Suc)
  next
    case False
    with Cons show ?thesis by simp
  qed
qed

lemma rxm_Plus_head:
  "rxm n (Plus P) (s, k) =
     (if takeWhile P s = [] then []
      else (drop (length (takeWhile P s)) s, k) # tl (rxm n (Plus P) (s, k)))"
proof (cases "takeWhile P s = []")
  case True
  then show ?thesis by (simp add: rxm_Plus_eq del: rxm.simps)
next
  case False
  then obtain m where m: "length (takeWhile P s) = Suc m" by (cases "takeWhile P s") auto
  have "[1..<Suc (Suc m)] = [1..<Suc m] @ [Suc m]" by simp
  with False m show ?thesis by (simp add: rxm_Plus_eq del: rxm.simps upt_Suc)
qed

lemma rxm_Seq: "rxm n (Seq a b) st = concat (map (rxm n b) (rxm n a st))"
  by (cases st) simp

lemma rxm_Grp_eq:
  "rxm n (Grp g r) (s, k) =
     map (\<lambda>p. (fst p, (snd p)(g \<mapsto> take (length s - length (fst p)) s))) (rxm n r (s, k))"
  by (simp add: case_prod_unfold)

lemma rxm_Bol: "rxm n Bol (s, k) = (if n = length s then [(s, k)] else [])"
  by auto

lemma rxm_Lit:
  "rxm n (Lit c) ([], k) = []"
  "rxm n (Lit c) (x # xs, k) = (if x = c then [(xs, k)] else [])"
  by simp_all

lemma concat_map_all_empty: "(\<And>x. x \<in> set xs \<Longrightarrow> f x = []) \<Longrightarrow> concat (map f xs) = []"
  by (induction xs) auto

lemma hashes_then_space:
  "rxm n (Seq (Plus isHash) (Lit (CHR '' ''))) (v, k) =
     (case drop (length (takeWhile isHash v)) v of
        [] \<Rightarrow> []
      | x # xs \<Rightarrow> if takeWhile isHash v \<noteq> [] \<and> x = CHR '' '' then [(xs, k)] else [])"
proof -
  let ?m = "length (takeWhile isHash v)"
  let ?F = "\<lambda>j. rxm n (Lit (CHR '' '')) (drop j v, k)"
  have low: "?F j = []" if "j < ?m" for j
  proof -
    from that have "j < length v" by (meson length_takeWhile_le less_le_trans)
    then have d: "drop j v = v ! j # drop (Suc j) v" by (simp add: Cons_nth_drop_Suc)
    from that have "isHash (v ! j)"
      by (metis nth_mem set_takeWhileD takeWhile_nth)
    then have "v ! j \<noteq> CHR '' ''" by (auto simp: isHash_def)
    with d show ?thesis by (simp add: rxm_Lit del: rxm.simps)
  qed
  have e: "rxm n (Seq (Plus isHash) (Lit (CHR '' ''))) (v, k) = concat (map ?F (rev [1..<Suc ?m]))"
    by (simp add: rxm_Seq rxm_Plus_eq comp_def del: rxm.simps upt_Suc)
  show ?thesis
  proof (cases "?m")
    case 0
    then show ?thesis by (simp add: e isHash_def del: rxm.simps split: list.splits)
  next
    case (Suc m')
    have "[1..<Suc (Suc m')] = [1..<Suc m'] @ [Suc m']" by simp
    then have "concat (map ?F (rev [1..<Suc ?m])) = ?F ?m @ concat (map ?F (rev [1..<?m]))"
      using Suc by (simp del: upt_Suc rxm.simps)
    also have "concat (map ?F (rev [1..<?m])) = []"
      by (rule concat_map_all_empty) (use low in auto)
    finally have "rxm n (Seq (Plus isHash) (Lit (CHR '' ''))) (v, k) = ?F ?m"
      using e by simp
    moreover from Suc have "takeWhile isHash v \<noteq> []" by auto
    ultimately show ?thesis by (simp add: rxm_Lit del: rxm.simps split: list.splits)
  qed
qed

lemma heading_prefix_group:
  "rxm n (Grp 1 (Seq (Plus isHash) (Lit (CHR '' '')))) (v, k) =
     (case drop (length (takeWhile isHash v)) v of
        [] \<Rightarrow> []
      | x # xs \<Rightarrow>
          if takeWhile isHash v \<noteq> [] \<and> x = CHR '' ''
          then [(xs, k(1 \<mapsto> take (length v - length xs) v))] else [])"
  by (simp only: rxm_Grp_eq hashes_then_space)
    (simp add: isHash_def split: list.splits del: rxm.simps One_nat_def)

lemma heading_top:
  "rxm (length v) headingRegex (v, Map.empty) =
     concat (map (rxm (length v) (Grp 2 (Plus anyChar)))
       (rxm (length v) (Grp 1 (Seq (Plus isHash) (Lit (CHR '' '')))) (v, Map.empty)))"
  unfolding headingRegex_def
  by (simp only: rxm_Seq rxm_Bol) (simp add: rxm_Seq del: rxm.simps One_nat_def)

lemma heading_at_start:
  "rxm (length v) headingRegex (v, Map.empty) =
     (case headingParts v of
        None \<Rightarrow> []
      | Some (p, t) \<Rightarrow>
          (drop (length p + length t) v, [1 \<mapsto> p, 2 \<mapsto> t]) #
          tl (rxm (length v) headingRegex (v, Map.empty)))"
proof -
  let ?n = "length (takeWhile isHash v)"
  show ?thesis
  proof (cases "drop ?n v")
    case Nil
    then show ?thesis
      by (simp add: heading_top heading_prefix_group headingParts_def del: rxm.simps One_nat_def)
  next
    case (Cons x xs)
    show ?thesis
    proof (cases "takeWhile isHash v \<noteq> [] \<and> x = CHR '' ''")
      case False
      with Cons show ?thesis
        by (auto simp add: heading_top heading_prefix_group headingParts_def simp del: rxm.simps One_nat_def)
    next
      case True
      have lv: "?n < length v"
        using Cons by (metis drop_eq_Nil2 list.distinct(1) not_le_imp_less)
      from Cons have xs: "xs = drop (Suc ?n) v"
        by (metis drop_Suc list.sel(3) tl_drop)
      have t1: "take (Suc ?n) v = takeWhile isHash v @ '' ''"
      proof -
        have "take (Suc ?n) v = take ?n v @ [v ! ?n]"
          using lv by (simp add: take_Suc_conv_app_nth)
        moreover have "take ?n v = takeWhile isHash v"
          by (metis takeWhile_eq_take)
        moreover have "v ! ?n = x"
          using Cons by (metis nth_via_drop)
        ultimately show ?thesis using True by simp
      qed
      let ?p = "takeWhile isHash v @ '' ''"
      let ?k1 = "[1 \<mapsto> ?p]"
      have "length v - length xs = Suc ?n"
        using xs lv by simp
      with Cons True t1 have g1:
        "rxm (length v) (Grp 1 (Seq (Plus isHash) (Lit (CHR '' '')))) (v, Map.empty) = [(xs, ?k1)]"
        by (simp add: heading_prefix_group del: rxm.simps One_nat_def)
      then have top: "rxm (length v) headingRegex (v, Map.empty) =
          rxm (length v) (Grp 2 (Plus anyChar)) (xs, ?k1)"
        by (simp add: heading_top del: rxm.simps One_nat_def)
      show ?thesis
      proof (cases "takeWhile anyChar xs = []")
        case True
        then have "rxm (length v) (Grp 2 (Plus anyChar)) (xs, ?k1) = []"
          by (simp add: rxm_Grp_eq rxm_Plus_eq del: rxm.simps One_nat_def upt_Suc)
        with True Cons \<open>takeWhile isHash v \<noteq> [] \<and> x = CHR '' ''\<close> top show ?thesis
          by (simp add: headingParts_def del: rxm.simps One_nat_def)
      next
        case False
        let ?t = "takeWhile anyChar xs"
        have hp: "headingParts v = Some (?p, ?t)"
          using Cons True False by (simp add: headingParts_def)
        have tt: "take (length ?t) xs = ?t"
          by (metis takeWhile_eq_take)
        have "rxm (length v) (Plus anyChar) (xs, ?k1) =
            (drop (length ?t) xs, ?k1) # tl (rxm (length v) (Plus anyChar) (xs, ?k1))"
          using False by (subst rxm_Plus_head) simp
        then obtain rest where
          "rxm (length v) (Plus anyChar) (xs, ?k1) = (drop (length ?t) xs, ?k1) # rest"
          by blast
        then have g2: "rxm (length v) (Grp 2 (Plus anyChar)) (xs, ?k1) =
            (drop (length ?t) xs, ?k1(2 \<mapsto> ?t)) #
            map (\<lambda>p. (fst p, (snd p)(2 \<mapsto> take (length xs - length (fst p)) xs))) rest"
          using tt length_takeWhile_le [of anyChar xs]
          by (simp add: rxm_Grp_eq del: rxm.simps One_nat_def)
        have dr: "drop (length ?t) xs = drop (length ?p + length ?t) v"
          using xs by (simp add: add.commute)
        from g2 top have "rxm (length v) headingRegex (v, Map.empty) =
            (drop (length ?t) xs, ?k1(2 \<mapsto> ?t)) # tl (rxm (length v) headingRegex (v, Map.empty))"
          by simp
        with hp dr show ?thesis by simp
      qed
    qed
  qed
qed

lemma exec_anchored_later: "0 < i \<Longrightarrow> exec headingRegex v i = None"
proof (induction "Suc (length v) - i" arbitrary: i rule: less_induct)
  case less
  show ?case
  proof (cases "length v < i")
    case True
    then show ?thesis by (subst exec.simps) simp
  next
    case False
    with less.prems have "length (drop i v) \<noteq> length v" by simp
    then have e: "rxm (length v) headingRegex (drop i v, Map.empty) = []"
      unfolding headingRegex_def by (simp only: rxm_Seq rxm_Bol) simp
    from False have "Suc (length v) - Suc i < Suc (length v) - i" by simp
    from less.hyps [OF this] have "exec headingRegex v (Suc i) = None" by simp
    with e False show ?thesis by (subst exec.simps) simp
  qed
qed

lemma exec_heading:
  "exec headingRegex v 0 =
     (case headingParts v of
        None \<Rightarrow> None
      | Some (p, t) \<Rightarrow>
          Some \<lparr>index = 0, lastIndex = length v - length (drop (length p + length t) v),
                groups = [1 \<mapsto> p, 2 \<mapsto> t]\<rparr>)"
proof (cases "headingParts v")
  case None
  with heading_at_start [of v] have "rxm (length v) headingRegex (v, Map.empty) = []" by simp
  with None exec_anchored_later [of 1 v] show ?thesis
    by (subst exec.simps) simp
next
  case (Some pt)
  obtain p t where pt: "pt = (p, t)" by (cases pt)
  with Some heading_at_start [of v] obtain rest where
    "rxm (length v) headingRegex (v, Map.empty) =
       (drop (length p + length t) v, [1 \<mapsto> p, 2 \<mapsto> t]) # rest"
    by auto
  with Some pt show ?thesis by (subst exec.simps) simp
qed

lemma takeWhile_append_stop:
  "b = [] \<or> \<not> P (hd b) \<Longrightarrow> takeWhile P (a @ b) = takeWhile P a"
  by (induction a) (auto simp: takeWhile_eq_Nil_iff hd_conv_nth neq_Nil_conv)

lemma headingParts_append:
  assumes "b = [] \<or> hd b = newline"
  shows "headingParts (a @ b) = headingParts a"
proof -
  from assms have bh: "b = [] \<or> \<not> isHash (hd b)" and ba: "b = [] \<or> \<not> anyChar (hd b)"
    and bs: "b = [] \<or> hd b \<noteq> CHR '' ''"
    by (auto simp: isHash_def anyChar_def newline_def)
  let ?n = "length (takeWhile isHash a)"
  have th: "takeWhile isHash (a @ b) = takeWhile isHash a"
    using bh by (rule takeWhile_append_stop [of b isHash a])
  have le: "?n \<le> length a" by (rule length_takeWhile_le)
  then have dr: "drop ?n (a @ b) = drop ?n a @ b" by simp
  show ?thesis
  proof (cases "drop ?n a")
    case Nil
    with bs dr th show ?thesis
      by (cases b) (auto simp: headingParts_def Let_def)
  next
    case (Cons x xs)
    with dr have "drop ?n (a @ b) = x # (xs @ b)" by simp
    moreover have "takeWhile anyChar (xs @ b) = takeWhile anyChar xs"
      using ba by (rule takeWhile_append_stop [of b anyChar xs])
    ultimately show ?thesis using Cons th
      by (simp add: headingParts_def Let_def)
  qed
qed

lemma headingParts_firstLine: "headingParts (firstLine v) = headingParts v"
proof -
  let ?a = "takeWhile (\<lambda>c. c \<noteq> newline) v"
  let ?b = "dropWhile (\<lambda>c. c \<noteq> newline) v"
  have "?b = [] \<or> hd ?b = newline"
    by (metis (mono_tags, lifting) hd_dropWhile)
  from headingParts_append [OF this, of ?a] show ?thesis
    by (simp add: firstLine_def)
qed

subsection \<open>The detector, run by run\<close>

lemma renamedHeadingAt_Suc:
  "renamedHeadingAt (c # diff) (Suc i) = renamedHeadingAt diff i"
  by (simp add: renamedHeadingAt_def)

lemma renamedHeadingAt_0:
  "renamedHeadingAt (c # n # rest) 0 =
     (if removed c \<and> added n
      then headingRename (firstLine (change_value c)) (firstLine (change_value n)) else None)"
  by (auto simp: renamedHeadingAt_def exec_heading headingRename_def headingParts_firstLine Let_def
      split: option.splits)

lemma map_filter_map: "List.map_filter f (map g xs) = List.map_filter (f \<circ> g) xs"
  by (induction xs) (simp_all split: option.splits)

lemma renamedHeadings_Cons:
  "renamedHeadings (c # diff) =
     (case renamedHeadingAt (c # diff) 0 of None \<Rightarrow> [] | Some h \<Rightarrow> [h]) @ renamedHeadings diff"
proof -
  have "[0..<length (c # diff)] = 0 # map Suc [0..<length diff]"
    by (simp add: upt_conv_Cons map_Suc_upt del: upt_Suc)
  then show ?thesis
    by (simp add: renamedHeadings_def List.map_filter_simps map_filter_map comp_def
        renamedHeadingAt_Suc del: upt_Suc split: option.splits)
qed

lemma renamedHeadings_single: "renamedHeadings [c] = []"
  by (simp add: renamedHeadings_def renamedHeadingAt_def List.map_filter_simps)

lemma run_heading_detect:
  "diffLines node (''# A'' @ [newline] @ ''foo'' @ [newline] @ ''bar'') (''# B'' @ [newline] @ ''bar'') =
     [\<lparr>change_value = ''# A'' @ [newline] @ ''foo'' @ [newline], added = False, removed = True\<rparr>,
      \<lparr>change_value = ''# B'' @ [newline], added = True, removed = False\<rparr>,
      \<lparr>change_value = ''bar'', added = False, removed = False\<rparr>]"
  "renamedHeadings
     [\<lparr>change_value = ''# A'' @ [newline] @ ''foo'' @ [newline], added = False, removed = True\<rparr>,
      \<lparr>change_value = ''# B'' @ [newline], added = True, removed = False\<rparr>,
      \<lparr>change_value = ''bar'', added = False, removed = False\<rparr>] =
     [\<lparr>oldHeader = ''A'', newHeader = ''B''\<rparr>]"
  "renamedHeadings_spec
     [\<lparr>change_value = ''# A'' @ [newline] @ ''foo'' @ [newline], added = False, removed = True\<rparr>,
      \<lparr>change_value = ''# B'' @ [newline], added = True, removed = False\<rparr>,
      \<lparr>change_value = ''bar'', added = False, removed = False\<rparr>] = []"
  by code_simp+

subsection \<open>Applying edits\<close>

lemma windowsToPosix_idem [simp]: "windowsToPosix (windowsToPosix p) = windowsToPosix p"
  by (induction p) (auto simp: windowsToPosix_def backslash_def)

lemma applyAll_Nil [simp]: "applyAll c [] = c"
  by (simp add: applyAll_def)







subsection \<open>The two loops of a rename, reference by reference\<close>

lemma repairEdit_cases:
  "repairEdit L pb pa f occ =
     (if resolvedTarget L f occ = pb then
        Some \<lparr>edit_path = path f, edit_range = targetRange occ,
              newText =
                (if \<not> replaceFileExtension occ \<and> \<not> str_includes (target occ) ''.md''
                 then slice_0_m3 (posix_normalize L (posix_relative L (posix_dirname L (path f)) pa))
                 else posix_normalize L (posix_relative L (posix_dirname L (path f)) pa)),
              requiresPathToExist = None\<rparr>
      else if startsWith (resolvedTarget L f occ) (pb @ ''/'') then
        Some \<lparr>edit_path = path f, edit_range = targetRange occ,
              newText =
                (if \<not> replaceFileExtension occ
                 then slice_0_m3 (posix_relative L (posix_dirname L (path f))
                        (pa @ ''/'' @ drop (length pb + 1) (resolvedTarget L f occ)))
                 else posix_relative L (posix_dirname L (path f))
                        (pa @ ''/'' @ drop (length pb + 1) (resolvedTarget L f occ))),
              requiresPathToExist = Some (pa @ ''/'' @ drop (length pb + 1) (resolvedTarget L f occ))\<rparr>
      else None)"
  by (simp add: repairEdit_def resolvedTarget_def Let_def)

lemma rebaseEdit_cases:
  "rebaseEdit L pb pa occ =
     (if posix_normalize L (target occ) = rebasedLink L pb pa occ then None
      else Some \<lparr>edit_path = pa, edit_range = targetRange occ,
                  newText = rebasedLink L pb pa occ,
                  requiresPathToExist = Some (posix_join L (posix_dirname L pb) (target occ))\<rparr>)"
  by (simp add: rebaseEdit_def rebasedLink_def Let_def)

text \<open>An edit of the rebase loop never restates the text it replaces, when slash
  replacement and normalisation leave its new text as it is.\<close>

lemma rebased_text_differs:
  assumes "getAllLinks (Some c) = Inr occs" and "occ \<in> set occs"
    and "new \<noteq> posix_normalize L (target occ)"
    and "newline \<notin> set (target occ)"
    and "posix_normalize L (windowsToPosix new) = new"
  shows "textInRange c (targetRange occ) \<noteq> Some new"
proof
  assume t: "textInRange c (targetRange occ) = Some new"
  from occurrence_range_text [OF assms(1,2)] assms(4) obtain raw where
    "textInRange c (targetRange occ) = Some raw" "windowsToPosix raw = target occ"
    by blast
  with t have "windowsToPosix new = target occ" by simp
  with assms(3,5) show False by simp
qed

lemma rebased_edit_source:
  assumes a: "rebaseEdits L pb pa (map_option content (find P fs)) = Inr rebased"
    and e: "e \<in> set rebased"
  shows "\<exists>doc occs occ. find P fs = Some doc \<and>
     getAllLinks (Some (content doc)) = Inr occs \<and> occ \<in> set occs \<and>
     edit_path e = pa \<and> edit_range e = targetRange occ \<and>
     newText e = rebasedLink L pb pa occ \<and>
     newText e \<noteq> posix_normalize L (target occ) \<and>
     (newline \<notin> set (target occ) \<and> posix_normalize L (windowsToPosix (newText e)) = newText e \<longrightarrow>
        textInRange (content doc) (edit_range e) \<noteq> Some (newText e))"
proof -
  from e rebaseEdits_mem [OF a, of e] obtain occs occ where
    o: "getAllLinks (map_option content (find P fs)) = Inr occs" "occ \<in> set occs"
      "rebaseEdit L pb pa occ = Some e"
    by blast
  from o(1,2) obtain doc where f: "find P fs = Some doc"
    by (cases "find P fs") (auto simp: getAllLinks_None)
  with o(1) have l: "getAllLinks (Some (content doc)) = Inr occs" by simp
  from o(3) have n: "posix_normalize L (target occ) \<noteq> rebasedLink L pb pa occ"
    and ee: "e = \<lparr>edit_path = pa, edit_range = targetRange occ,
                  newText = rebasedLink L pb pa occ,
                  requiresPathToExist = Some (posix_join L (posix_dirname L pb) (target occ))\<rparr>"
    by (auto simp: rebaseEdit_cases split: if_splits)
  from n ee have ne: "newText e \<noteq> posix_normalize L (target occ)" by auto
  have "textInRange (content doc) (edit_range e) \<noteq> Some (newText e)"
    if "newline \<notin> set (target occ)" "posix_normalize L (windowsToPosix (newText e)) = newText e"
    using rebased_text_differs [OF l o(2) ne that] ee by simp
  with f l o(2) ne ee show ?thesis
    by (intro exI [of _ doc] exI [of _ occs] exI [of _ occ]) simp
qed

lemma rebased_edit_complete:
  assumes a: "rebaseEdits L pb pa (map_option content (find P fs)) = Inr rebased"
    and f: "find P fs = Some doc"
    and l: "getAllLinks (Some (content doc)) = Inr occs" and o: "occ \<in> set occs"
    and n: "posix_normalize L (target occ) \<noteq> rebasedLink L pb pa occ"
  shows "\<exists>e \<in> set rebased. edit_path e = pa \<and> edit_range e = targetRange occ \<and>
     newText e = rebasedLink L pb pa occ"
proof -
  let ?e = "\<lparr>edit_path = pa, edit_range = targetRange occ,
                  newText = rebasedLink L pb pa occ,
                  requiresPathToExist = Some (posix_join L (posix_dirname L pb) (target occ))\<rparr>"
  from n have "rebaseEdit L pb pa occ = Some ?e" by (simp add: rebaseEdit_cases)
  with rebaseEdits_mem [OF a, of ?e] f l o have "?e \<in> set rebased" by auto
  then show ?thesis by (intro bexI [of _ ?e]) simp_all
qed

lemma repaired_edit_source:
  assumes b: "repairEdits L pb pa fs = Inr repaired" and e: "e \<in> set repaired"
  shows "\<exists>markdownFile \<in> set fs. \<exists>occs occ.
     getAllLinks (Some (content markdownFile)) = Inr occs \<and> occ \<in> set occs \<and>
     edit_path e = path markdownFile \<and> edit_range e = targetRange occ \<and>
     (resolvedTarget L markdownFile occ = pb \<or>
      startsWith (resolvedTarget L markdownFile occ) (pb @ ''/''))"
proof -
  from e repairEdits_mem [OF b, of e] obtain f occs occ where
    o: "f \<in> set fs" "getAllLinks (Some (content f)) = Inr occs" "occ \<in> set occs"
      "repairEdit L pb pa f occ = Some e"
    by blast
  from o(4) have "resolvedTarget L f occ = pb \<or> startsWith (resolvedTarget L f occ) (pb @ ''/'')"
    by (auto simp: repairEdit_cases split: if_splits)
  with o repairEdit_range [OF o(4)] show ?thesis
    by (intro bexI [of _ f] exI [of _ occs] exI [of _ occ]) simp_all
qed

section \<open>The claims\<close>

text \<open>
  C9, as amended. For every save event, and for every rename event whose options hold
  only glob patterns on which \<^verbatim>\<open>minimatch\<close> returns (it refuses a pattern of more than
  65536 characters), \<open>pureGetEdits\<close> returns a list of edits: no scan of a document
  diverges (each of the three global patterns reads at least one character per match,
  so \<^verbatim>\<open>lastIndex\<close> advances) and no scan reads an undefined capture (groups 1 and 2
  take part in every match). Missing content of the moved document, empty texts and
  malformed targets are among the inputs.
\<close>

theorem pureGetEdits_returns:
  assumes "case event of
             Save payload \<Rightarrow> True
           | Rename payload \<Rightarrow>
               (\<forall>pattern \<in> set (case include_opt opts of None \<Rightarrow> [] | Some i \<Rightarrow> i) \<union>
                    set (case exclude opts of None \<Rightarrow> [] | Some e \<Rightarrow> e).
                  \<forall>p. \<exists>b. minimatch L p pattern = Inr b)"
  shows "\<exists>edits. pureGetEdits L event markdownFiles opts = Inr edits"
proof (cases event)
  case (Save payload)
  then show ?thesis by (simp add: pureGetEdits_def)
next
  case (Rename payload)
  with assms have "\<And>pattern p.
      pattern \<in> set (case include_opt opts of None \<Rightarrow> [] | Some i \<Rightarrow> i) \<union>
        set (case exclude opts of None \<Rightarrow> [] | Some e \<Rightarrow> e) \<Longrightarrow>
      \<exists>b. minimatch L p pattern = Inr b"
    by simp
  from handleRenameEvent_returns [of opts L payload markdownFiles, OF this] Rename
  show ?thesis
    by (simp add: pureGetEdits_def)
qed

theorem pureGetEdits_returns_witness:
  "(\<exists>edits. pureGetEdits node (Rename \<lparr>pathBefore = ''folder/a.md'', pathAfter = ''folder/b.md''\<rparr>)
      [\<lparr>path = ''x.md'', content = ''[x](folder/a.md)''\<rparr>]
      \<lparr>exclude = Some [''folder/**''], include_opt = Some [''*.md''], workspacePath = None\<rparr> =
      Inr edits) \<and>
   (\<exists>edits. pureGetEdits node
      (Save \<lparr>save_path = ''d.md'', contentBefore = ''# A'', contentAfter = ''# B''\<rparr>)
      [] noOptions = Inr edits)"
  using pureGetEdits_returns
      [where event = "Rename \<lparr>pathBefore = ''folder/a.md'', pathAfter = ''folder/b.md''\<rparr>"
         and opts = "\<lparr>exclude = Some [''folder/**''], include_opt = Some [''*.md''],
                       workspacePath = None\<rparr>"
         and L = node and markdownFiles = "[\<lparr>path = ''x.md'', content = ''[x](folder/a.md)''\<rparr>]"]
    pureGetEdits_returns
      [where event = "Save \<lparr>save_path = ''d.md'', contentBefore = ''# A'', contentAfter = ''# B''\<rparr>"
         and opts = noOptions and L = node and markdownFiles = "[]"]
  by (simp add: node_def nodeDeps_def node_minimatch_def)

text \<open>The claim as stated covers every value of the options. A glob pattern of 65537
  characters is a value of the options; \<^verbatim>\<open>minimatch\<close> raises \<^verbatim>\<open>TypeError\<close> on it, inside
  the filter of the documents (line 85), and nothing in the engine catches it.\<close>

theorem long_pattern_counterexample:
  "length (replicate 65537 CHR ''a'') = 65537 \<and>
   pureGetEdits node (Rename \<lparr>pathBefore = ''a.md'', pathAfter = ''b.md''\<rparr>)
     [\<lparr>path = ''x.md'', content = ''[a](a.md)''\<rparr>]
     \<lparr>exclude = Some [replicate 65537 CHR ''a''], include_opt = None, workspacePath = None\<rparr> =
   Inl TypeError"
  by (simp add: pureGetEdits_def handleRenameEvent_def filteredFiles_def shouldIncludePath_def
      node_def nodeDeps_def node_minimatch_def Let_def)

text \<open>
  C10. For a save event the edits depend on the payload alone: two runs on the same
  payload, with any two document sets and any two values of the options, give the same
  list of edits.
\<close>

theorem save_edits_depend_on_payload_only:
  "pureGetEdits L (Save payload) markdownFiles1 opts1 =
   pureGetEdits L (Save payload) markdownFiles2 opts2"
  by (simp add: pureGetEdits_def handleSaveEvent_def)

text \<open>
  C8. A rename whose \<open>pathBefore\<close> (normalised) fails the glob filter yields no edits,
  whatever the documents contain: the run returns the empty list whenever the filter
  returns on the documents, and no run yields an edit. And a path that matches an
  exclude pattern and either matches no include pattern or meets an empty include list
  fails the filter.
\<close>

theorem excluded_rename_yields_no_edits:
  "(shouldIncludePath L opts (normalizedPath L (pathBefore payload)) = Inr False \<longrightarrow>
      (\<forall>edits. pureGetEdits L (Rename payload) markdownFiles opts = Inr edits \<longrightarrow> edits = []) \<and>
      ((\<exists>fs. filteredFiles L opts markdownFiles = Inr fs) \<longrightarrow>
         pureGetEdits L (Rename payload) markdownFiles opts = Inr [])) \<and>
   (failsGlobFilter L opts (normalizedPath L (pathBefore payload)) \<longrightarrow>
      shouldIncludePath L opts (normalizedPath L (pathBefore payload)) = Inr False)"
  by (auto simp: pureGetEdits_def handleRenameEvent_def shouldIncludePath_def
      failsGlobFilter_def Let_def split: sum.splits)

lemma glob_folder_example: "glob ''folder/**'' ''folder/a.md''"
  by code_simp

lemma relative_folder_example: "node_relative ''/w'' [] ''folder/a.md'' = ''folder/a.md''"
  by code_simp

lemma normalize_folder_example: "node_normalize ''folder/a.md'' = ''folder/a.md''"
  by code_simp

lemma filter_folder_example:
  "filteredFiles (nodeDeps ''/w'')
     \<lparr>exclude = Some [''folder/**''], include_opt = None, workspacePath = None\<rparr>
     [\<lparr>path = ''x.md'', content = ''[x](folder/a.md)''\<rparr>] =
   Inr [\<lparr>path = ''x.md'', content = ''[x](folder/a.md)''\<rparr>]"
  by code_simp

theorem excluded_rename_yields_no_edits_witness:
  "failsGlobFilter (nodeDeps ''/w'')
        \<lparr>exclude = Some [''folder/**''], include_opt = None, workspacePath = None\<rparr>
        ''folder/a.md'' \<and>
   shouldIncludePath (nodeDeps ''/w'')
        \<lparr>exclude = Some [''folder/**''], include_opt = None, workspacePath = None\<rparr>
        ''folder/a.md'' = Inr False \<and>
   pureGetEdits (nodeDeps ''/w'')
      (Rename \<lparr>pathBefore = ''folder/a.md'', pathAfter = ''folder/b.md''\<rparr>)
      [\<lparr>path = ''x.md'', content = ''[x](folder/a.md)''\<rparr>]
      \<lparr>exclude = Some [''folder/**''], include_opt = None, workspacePath = None\<rparr> = Inr []"
proof -
  let ?L = "nodeDeps ''/w''"
  let ?o = "\<lparr>exclude = Some [''folder/**''], include_opt = None, workspacePath = None\<rparr>"
  let ?p = "\<lparr>pathBefore = ''folder/a.md'', pathAfter = ''folder/b.md''\<rparr>"
  let ?fs = "[\<lparr>path = ''x.md'', content = ''[x](folder/a.md)''\<rparr>]"
  have n: "normalizedPath ?L (pathBefore ?p) = ''folder/a.md''"
    by (simp add: normalizedPath_def nodeDeps_def windowsToPosix_def backslash_def
        normalize_folder_example)
  have f: "failsGlobFilter ?L ?o ''folder/a.md''"
    by (simp add: failsGlobFilter_def nodeDeps_def node_minimatch_def relative_folder_example
        glob_folder_example)
  from excluded_rename_yields_no_edits [of ?L ?o ?p ?fs] n f filter_folder_example
  show ?thesis
    by simp
qed

text \<open>
  C3, as amended. Every occurrence that \<open>getAllLinks\<close> yields comes from one of the
  three scans, in this order: the inline links and the \<^verbatim>\<open><img>\<close> references carry
  \<open>replaceFileExtension = true\<close>, the double-bracket references carry
  \<open>replaceFileExtension = false\<close>.
\<close>

theorem getAllLinks_flags:
  "\<exists>mdLinks imgLinks wikiLinks.
     getAllLinks fileContent = Inr (mdLinks @ imgLinks @ wikiLinks) \<and>
     getMatchingLinks mdLinkRegexGlobal fileContent True = Inr mdLinks \<and>
     getMatchingLinks imgRegex fileContent True = Inr imgLinks \<and>
     getMatchingLinks wikilinkRegex fileContent False = Inr wikiLinks \<and>
     list_all (\<lambda>occ. replaceFileExtension occ) (mdLinks @ imgLinks) \<and>
     list_all (\<lambda>occ. \<not> replaceFileExtension occ) wikiLinks"
proof -
  obtain a where a: "getMatchingLinks mdLinkRegexGlobal fileContent True = Inr a"
    using getMatchingLinks_returns patterns_consume(1) patterns_capture(1,2) by blast
  obtain b where b: "getMatchingLinks imgRegex fileContent True = Inr b"
    using getMatchingLinks_returns patterns_consume(2) patterns_capture(3,4) by blast
  obtain d where d: "getMatchingLinks wikilinkRegex fileContent False = Inr d"
    using getMatchingLinks_returns patterns_consume(3) patterns_capture(5,6) by blast
  from getMatchingLinks_flag [OF a] getMatchingLinks_flag [OF b] getMatchingLinks_flag [OF d]
  have "list_all (\<lambda>occ. replaceFileExtension occ) (a @ b)"
    and "list_all (\<lambda>occ. \<not> replaceFileExtension occ) d"
    by simp_all
  with a b d show ?thesis by (simp add: getAllLinks_def)
qed

text \<open>The claim as stated gives the inline link \<open>false\<close> and the double-bracket
  reference \<open>true\<close>; the scan gives them the other way round.\<close>

theorem inline_link_flag_counterexample:
  "getAllLinks (Some ''[label](target) and [[wiki]]'') =
     Inr [\<lparr>target = ''target'', line = 0, col = 8, replaceFileExtension = True\<rparr>,
          \<lparr>target = ''wiki'', line = 0, col = 22, replaceFileExtension = False\<rparr>]"
  by code_simp




text \<open>
  C2, as amended. In a rename whose \<open>pathBefore\<close> passes the filter, the rebase loop
  yields an edit for a reference of the moved document exactly when the normalised
  target differs from the new link computed for it, and the edit's new text is that new
  link. So no edit of the rebase loop has a new text equal to the normalised target of
  the reference it rewrites; and none has a new text identical to the text in its
  range, when the target holds no line feed and slash replacement and normalisation
  leave the new text as it is. The edits of the repair loop are not covered.
\<close>

theorem rebase_phase_suppresses_unmodified:
  assumes "pureGetEdits L (Rename payload) markdownFiles opts = Inr edits"
    and "shouldIncludePath L opts (normalizedPath L (pathBefore payload)) = Inr True"
  shows "\<exists>fs rebased repaired.
     filteredFiles L opts markdownFiles = Inr fs \<and> edits = rebased @ repaired \<and>
     rebaseEdits L (normalizedPath L (pathBefore payload)) (normalizedPath L (pathAfter payload))
       (map_option content
          (find (\<lambda>file. posix_normalize L (path file) = normalizedPath L (pathAfter payload)) fs)) =
       Inr rebased \<and>
     repairEdits L (normalizedPath L (pathBefore payload)) (normalizedPath L (pathAfter payload))
       fs = Inr repaired \<and>
     (\<forall>e \<in> set rebased. \<exists>doc occs occ.
        find (\<lambda>file. posix_normalize L (path file) = normalizedPath L (pathAfter payload)) fs =
          Some doc \<and>
        getAllLinks (Some (content doc)) = Inr occs \<and> occ \<in> set occs \<and>
        edit_path e = normalizedPath L (pathAfter payload) \<and>
        edit_range e = targetRange occ \<and>
        newText e = rebasedLink L (normalizedPath L (pathBefore payload))
                      (normalizedPath L (pathAfter payload)) occ \<and>
        newText e \<noteq> posix_normalize L (target occ) \<and>
        (newline \<notin> set (target occ) \<and>
         posix_normalize L (windowsToPosix (newText e)) = newText e \<longrightarrow>
           textInRange (content doc) (edit_range e) \<noteq> Some (newText e))) \<and>
     (\<forall>doc occs. \<forall>occ \<in> set occs.
        find (\<lambda>file. posix_normalize L (path file) = normalizedPath L (pathAfter payload)) fs =
          Some doc \<and>
        getAllLinks (Some (content doc)) = Inr occs \<and>
        posix_normalize L (target occ) \<noteq>
          rebasedLink L (normalizedPath L (pathBefore payload))
            (normalizedPath L (pathAfter payload)) occ \<longrightarrow>
        (\<exists>e \<in> set rebased.
           edit_path e = normalizedPath L (pathAfter payload) \<and>
           edit_range e = targetRange occ \<and>
           newText e = rebasedLink L (normalizedPath L (pathBefore payload))
                         (normalizedPath L (pathAfter payload)) occ))"
proof -
  let ?pb = "normalizedPath L (pathBefore payload)"
  let ?pa = "normalizedPath L (pathAfter payload)"
  let ?P = "\<lambda>file. posix_normalize L (path file) = ?pa"
  from assms(1) have "handleRenameEvent L payload markdownFiles opts = Inr edits"
    by (simp add: pureGetEdits_def)
  from handleRenameEvent_included [OF this assms(2)] obtain fs rebased repaired where
    fs: "filteredFiles L opts markdownFiles = Inr fs"
    and es: "edits = rebased @ repaired"
    and a: "rebaseEdits L ?pb ?pa (map_option content (find ?P fs)) = Inr rebased"
    and b: "repairEdits L ?pb ?pa fs = Inr repaired"
    by blast
  have sound: "\<forall>e \<in> set rebased. \<exists>doc occs occ.
        find ?P fs = Some doc \<and>
        getAllLinks (Some (content doc)) = Inr occs \<and> occ \<in> set occs \<and>
        edit_path e = ?pa \<and> edit_range e = targetRange occ \<and>
        newText e = rebasedLink L ?pb ?pa occ \<and>
        newText e \<noteq> posix_normalize L (target occ) \<and>
        (newline \<notin> set (target occ) \<and>
         posix_normalize L (windowsToPosix (newText e)) = newText e \<longrightarrow>
           textInRange (content doc) (edit_range e) \<noteq> Some (newText e))"
    using rebased_edit_source [OF a] by blast
  have complete: "\<forall>doc occs. \<forall>occ \<in> set occs.
        find ?P fs = Some doc \<and> getAllLinks (Some (content doc)) = Inr occs \<and>
        posix_normalize L (target occ) \<noteq> rebasedLink L ?pb ?pa occ \<longrightarrow>
        (\<exists>e \<in> set rebased. edit_path e = ?pa \<and> edit_range e = targetRange occ \<and>
           newText e = rebasedLink L ?pb ?pa occ)"
    using rebased_edit_complete [OF a] by blast
  from fs es a b sound complete show ?thesis
    by (intro exI [of _ fs] exI [of _ rebased] exI [of _ repaired] conjI)
qed

theorem rebase_phase_suppresses_unmodified_witness:
  "\<exists>fs rebased repaired.
     filteredFiles node noOptions [\<lparr>path = ''x.md'', content = ''[l](y.md)''\<rparr>] = Inr fs \<and>
     [\<lparr>edit_path = ''x.md'',
       edit_range = \<lparr>range_start = \<lparr>pos_line = 0, character = 4\<rparr>,
                     range_end = \<lparr>pos_line = 0, character = 8\<rparr>\<rparr>,
       newText = ''a/y.md'', requiresPathToExist = Some ''a/y.md''\<rparr>] = rebased @ repaired \<and>
     rebaseEdits node (normalizedPath node ''a/x.md'') (normalizedPath node ''x.md'')
       (map_option content
          (find (\<lambda>file. posix_normalize node (path file) = normalizedPath node ''x.md'') fs)) =
       Inr rebased \<and>
     repairEdits node (normalizedPath node ''a/x.md'') (normalizedPath node ''x.md'') fs =
       Inr repaired \<and>
     (\<forall>e \<in> set rebased. \<exists>doc occs occ.
        find (\<lambda>file. posix_normalize node (path file) = normalizedPath node ''x.md'') fs =
          Some doc \<and>
        getAllLinks (Some (content doc)) = Inr occs \<and> occ \<in> set occs \<and>
        edit_path e = normalizedPath node ''x.md'' \<and>
        edit_range e = targetRange occ \<and>
        newText e = rebasedLink node (normalizedPath node ''a/x.md'')
                      (normalizedPath node ''x.md'') occ \<and>
        newText e \<noteq> posix_normalize node (target occ) \<and>
        (newline \<notin> set (target occ) \<and>
         posix_normalize node (windowsToPosix (newText e)) = newText e \<longrightarrow>
           textInRange (content doc) (edit_range e) \<noteq> Some (newText e))) \<and>
     (\<forall>doc occs. \<forall>occ \<in> set occs.
        find (\<lambda>file. posix_normalize node (path file) = normalizedPath node ''x.md'') fs =
          Some doc \<and>
        getAllLinks (Some (content doc)) = Inr occs \<and>
        posix_normalize node (target occ) \<noteq>
          rebasedLink node (normalizedPath node ''a/x.md'') (normalizedPath node ''x.md'') occ \<longrightarrow>
        (\<exists>e \<in> set rebased.
           edit_path e = normalizedPath node ''x.md'' \<and>
           edit_range e = targetRange occ \<and>
           newText e = rebasedLink node (normalizedPath node ''a/x.md'')
                         (normalizedPath node ''x.md'') occ))"
  using rebase_phase_suppresses_unmodified [OF run_rebase_moved_up run_included]
  by simp

text \<open>The claim as stated covers the repair loop. That loop yields the new text \<open>b\<close> for
  the text \<open>b\<close>: the moved file keeps its name up to the case of its extension, and the
  double-bracket reference omits the extension.\<close>

theorem repair_phase_noop_counterexample:
  "pureGetEdits node (Rename \<lparr>pathBefore = ''b.md'', pathAfter = ''b.MD''\<rparr>)
     [\<lparr>path = ''x.md'', content = ''see [[b]]''\<rparr>] noOptions =
   Inr [\<lparr>edit_path = ''x.md'',
         edit_range = \<lparr>range_start = \<lparr>pos_line = 0, character = 6\<rparr>,
                       range_end = \<lparr>pos_line = 0, character = 7\<rparr>\<rparr>,
         newText = ''b'', requiresPathToExist = None\<rparr>] \<and>
   textInRange ''see [[b]]''
     \<lparr>range_start = \<lparr>pos_line = 0, character = 6\<rparr>,
      range_end = \<lparr>pos_line = 0, character = 7\<rparr>\<rparr> = Some ''b''"
  using run_extension_case run_extension_case_text by simp

text \<open>
  C6, as amended. In a rename whose \<open>pathBefore\<close> passes the filter, the repair loop
  runs over every document of the filtered list, the moved document included. A
  reference resolves to the target joined to the directory of its document,
  normalised, with \<^verbatim>\<open>.md\<close> appended for a double-bracket reference whose resolved path
  contains no \<^verbatim>\<open>.md\<close>. The loop yields an edit for every reference of every such
  document that resolves to \<open>pathBefore\<close> (the edit requires no path to exist) or to a
  path that starts with \<open>pathBefore\<close> and a slash (the edit requires the path under
  \<open>pathAfter\<close> to exist), with the reference's range and the new text the loop
  computes; and it yields no other edit.
\<close>

theorem repair_covers_every_filtered_document:
  assumes "pureGetEdits L (Rename payload) markdownFiles opts = Inr edits"
    and "shouldIncludePath L opts (normalizedPath L (pathBefore payload)) = Inr True"
  shows "\<exists>fs rebased repaired.
     filteredFiles L opts markdownFiles = Inr fs \<and> edits = rebased @ repaired \<and>
     rebaseEdits L (normalizedPath L (pathBefore payload)) (normalizedPath L (pathAfter payload))
       (map_option content
          (find (\<lambda>file. posix_normalize L (path file) = normalizedPath L (pathAfter payload)) fs)) =
       Inr rebased \<and>
     repairEdits L (normalizedPath L (pathBefore payload)) (normalizedPath L (pathAfter payload))
       fs = Inr repaired \<and>
     (\<forall>markdownFile \<in> set fs. \<forall>occs. \<forall>occ \<in> set occs.
        getAllLinks (Some (content markdownFile)) = Inr occs \<longrightarrow>
        (resolvedTarget L markdownFile occ = normalizedPath L (pathBefore payload) \<longrightarrow>
           (\<exists>e \<in> set repaired.
              edit_path e = path markdownFile \<and> edit_range e = targetRange occ \<and>
              requiresPathToExist e = None \<and>
              newText e =
                (if \<not> replaceFileExtension occ \<and> \<not> str_includes (target occ) ''.md''
                 then slice_0_m3
                        (posix_normalize L
                           (posix_relative L (posix_dirname L (path markdownFile))
                              (normalizedPath L (pathAfter payload))))
                 else posix_normalize L
                        (posix_relative L (posix_dirname L (path markdownFile))
                           (normalizedPath L (pathAfter payload)))))) \<and>
        (resolvedTarget L markdownFile occ \<noteq> normalizedPath L (pathBefore payload) \<and>
         startsWith (resolvedTarget L markdownFile occ)
           (normalizedPath L (pathBefore payload) @ ''/'') \<longrightarrow>
           (\<exists>e \<in> set repaired.
              edit_path e = path markdownFile \<and> edit_range e = targetRange occ \<and>
              requiresPathToExist e =
                Some (normalizedPath L (pathAfter payload) @ ''/'' @
                      drop (length (normalizedPath L (pathBefore payload)) + 1)
                        (resolvedTarget L markdownFile occ)) \<and>
              newText e =
                (if \<not> replaceFileExtension occ
                 then slice_0_m3
                        (posix_relative L (posix_dirname L (path markdownFile))
                           (normalizedPath L (pathAfter payload) @ ''/'' @
                            drop (length (normalizedPath L (pathBefore payload)) + 1)
                              (resolvedTarget L markdownFile occ)))
                 else posix_relative L (posix_dirname L (path markdownFile))
                        (normalizedPath L (pathAfter payload) @ ''/'' @
                         drop (length (normalizedPath L (pathBefore payload)) + 1)
                           (resolvedTarget L markdownFile occ)))))) \<and>
     (\<forall>e \<in> set repaired. \<exists>markdownFile \<in> set fs. \<exists>occs occ.
        getAllLinks (Some (content markdownFile)) = Inr occs \<and> occ \<in> set occs \<and>
        edit_path e = path markdownFile \<and> edit_range e = targetRange occ \<and>
        (resolvedTarget L markdownFile occ = normalizedPath L (pathBefore payload) \<or>
         startsWith (resolvedTarget L markdownFile occ)
           (normalizedPath L (pathBefore payload) @ ''/'')))"
proof -
  let ?pb = "normalizedPath L (pathBefore payload)"
  let ?pa = "normalizedPath L (pathAfter payload)"
  let ?P = "\<lambda>file. posix_normalize L (path file) = ?pa"
  from assms(1) have "handleRenameEvent L payload markdownFiles opts = Inr edits"
    by (simp add: pureGetEdits_def)
  from handleRenameEvent_included [OF this assms(2)] obtain fs rebased repaired where
    fs: "filteredFiles L opts markdownFiles = Inr fs"
    and es: "edits = rebased @ repaired"
    and a: "rebaseEdits L ?pb ?pa (map_option content (find ?P fs)) = Inr rebased"
    and b: "repairEdits L ?pb ?pa fs = Inr repaired"
    by blast
  have mem: "repairEdit L ?pb ?pa f occ = Some e \<Longrightarrow> e \<in> set repaired"
    if "f \<in> set fs" "getAllLinks (Some (content f)) = Inr occs" "occ \<in> set occs"
    for f occs occ e
    using repairEdits_mem [OF b, of e] that by blast
  have complete: "\<forall>markdownFile \<in> set fs. \<forall>occs. \<forall>occ \<in> set occs.
        getAllLinks (Some (content markdownFile)) = Inr occs \<longrightarrow>
        (resolvedTarget L markdownFile occ = ?pb \<longrightarrow>
           (\<exists>e \<in> set repaired.
              edit_path e = path markdownFile \<and> edit_range e = targetRange occ \<and>
              requiresPathToExist e = None \<and>
              newText e =
                (if \<not> replaceFileExtension occ \<and> \<not> str_includes (target occ) ''.md''
                 then slice_0_m3
                        (posix_normalize L
                           (posix_relative L (posix_dirname L (path markdownFile)) ?pa))
                 else posix_normalize L
                        (posix_relative L (posix_dirname L (path markdownFile)) ?pa)))) \<and>
        (resolvedTarget L markdownFile occ \<noteq> ?pb \<and>
         startsWith (resolvedTarget L markdownFile occ) (?pb @ ''/'') \<longrightarrow>
           (\<exists>e \<in> set repaired.
              edit_path e = path markdownFile \<and> edit_range e = targetRange occ \<and>
              requiresPathToExist e =
                Some (?pa @ ''/'' @ drop (length ?pb + 1) (resolvedTarget L markdownFile occ)) \<and>
              newText e =
                (if \<not> replaceFileExtension occ
                 then slice_0_m3
                        (posix_relative L (posix_dirname L (path markdownFile))
                           (?pa @ ''/'' @ drop (length ?pb + 1) (resolvedTarget L markdownFile occ)))
                 else posix_relative L (posix_dirname L (path markdownFile))
                        (?pa @ ''/'' @ drop (length ?pb + 1) (resolvedTarget L markdownFile occ)))))"
  proof (intro ballI allI impI conjI)
    fix f occs occ
    assume f: "f \<in> set fs" and o: "occ \<in> set occs"
      and l: "getAllLinks (Some (content f)) = Inr occs"
      and r: "resolvedTarget L f occ = ?pb"
    let ?e = "\<lparr>edit_path = path f, edit_range = targetRange occ,
              newText =
                (if \<not> replaceFileExtension occ \<and> \<not> str_includes (target occ) ''.md''
                 then slice_0_m3 (posix_normalize L (posix_relative L (posix_dirname L (path f)) ?pa))
                 else posix_normalize L (posix_relative L (posix_dirname L (path f)) ?pa)),
              requiresPathToExist = None\<rparr>"
    from r have "repairEdit L ?pb ?pa f occ = Some ?e" by (simp add: repairEdit_cases)
    from mem [OF f l o this] show "\<exists>e \<in> set repaired.
              edit_path e = path f \<and> edit_range e = targetRange occ \<and>
              requiresPathToExist e = None \<and>
              newText e =
                (if \<not> replaceFileExtension occ \<and> \<not> str_includes (target occ) ''.md''
                 then slice_0_m3
                        (posix_normalize L (posix_relative L (posix_dirname L (path f)) ?pa))
                 else posix_normalize L (posix_relative L (posix_dirname L (path f)) ?pa))"
      by (intro bexI [of _ ?e]) simp_all
  next
    fix f occs occ
    assume f: "f \<in> set fs" and o: "occ \<in> set occs"
      and l: "getAllLinks (Some (content f)) = Inr occs"
      and r: "resolvedTarget L f occ \<noteq> ?pb \<and> startsWith (resolvedTarget L f occ) (?pb @ ''/'')"
    let ?n = "?pa @ ''/'' @ drop (length ?pb + 1) (resolvedTarget L f occ)"
    let ?e = "\<lparr>edit_path = path f, edit_range = targetRange occ,
              newText =
                (if \<not> replaceFileExtension occ
                 then slice_0_m3 (posix_relative L (posix_dirname L (path f)) ?n)
                 else posix_relative L (posix_dirname L (path f)) ?n),
              requiresPathToExist = Some ?n\<rparr>"
    from r have "repairEdit L ?pb ?pa f occ = Some ?e" by (simp add: repairEdit_cases)
    from mem [OF f l o this] show "\<exists>e \<in> set repaired.
              edit_path e = path f \<and> edit_range e = targetRange occ \<and>
              requiresPathToExist e = Some ?n \<and>
              newText e =
                (if \<not> replaceFileExtension occ
                 then slice_0_m3 (posix_relative L (posix_dirname L (path f)) ?n)
                 else posix_relative L (posix_dirname L (path f)) ?n)"
      by (intro bexI [of _ ?e]) simp_all
  qed
  have sound: "\<forall>e \<in> set repaired. \<exists>markdownFile \<in> set fs. \<exists>occs occ.
        getAllLinks (Some (content markdownFile)) = Inr occs \<and> occ \<in> set occs \<and>
        edit_path e = path markdownFile \<and> edit_range e = targetRange occ \<and>
        (resolvedTarget L markdownFile occ = ?pb \<or>
         startsWith (resolvedTarget L markdownFile occ) (?pb @ ''/''))"
    using repaired_edit_source [OF b] by blast
  from fs es a b complete sound show ?thesis
    by (intro exI [of _ fs] exI [of _ rebased] exI [of _ repaired] conjI)
qed

theorem repair_covers_every_filtered_document_witness:
  "\<exists>fs rebased repaired.
     filteredFiles node noOptions [\<lparr>path = ''b.md'', content = ''[self](a.md)''\<rparr>] = Inr fs \<and> [\<lparr>edit_path = ''b.md'',
        edit_range = \<lparr>range_start = \<lparr>pos_line = 0, character = 7\<rparr>,
                      range_end = \<lparr>pos_line = 0, character = 11\<rparr>\<rparr>,
        newText = ''b.md'', requiresPathToExist = None\<rparr>] = rebased @ repaired \<and>
     rebaseEdits node (normalizedPath node ''a.md'') (normalizedPath node ''b.md'')
       (map_option content
          (find (\<lambda>file. posix_normalize node (path file) = normalizedPath node ''b.md'') fs)) =
       Inr rebased \<and>
     repairEdits node (normalizedPath node ''a.md'') (normalizedPath node ''b.md'')
       fs = Inr repaired \<and>
     (\<forall>markdownFile \<in> set fs. \<forall>occs. \<forall>occ \<in> set occs.
        getAllLinks (Some (content markdownFile)) = Inr occs \<longrightarrow>
        (resolvedTarget node markdownFile occ = normalizedPath node ''a.md'' \<longrightarrow>
           (\<exists>e \<in> set repaired.
              edit_path e = path markdownFile \<and> edit_range e = targetRange occ \<and>
              requiresPathToExist e = None \<and>
              newText e =
                (if \<not> replaceFileExtension occ \<and> \<not> str_includes (target occ) ''.md''
                 then slice_0_m3
                        (posix_normalize node
                           (posix_relative node (posix_dirname node (path markdownFile))
                              (normalizedPath node ''b.md'')))
                 else posix_normalize node
                        (posix_relative node (posix_dirname node (path markdownFile))
                           (normalizedPath node ''b.md''))))) \<and>
        (resolvedTarget node markdownFile occ \<noteq> normalizedPath node ''a.md'' \<and>
         startsWith (resolvedTarget node markdownFile occ)
           (normalizedPath node ''a.md'' @ ''/'') \<longrightarrow>
           (\<exists>e \<in> set repaired.
              edit_path e = path markdownFile \<and> edit_range e = targetRange occ \<and>
              requiresPathToExist e =
                Some (normalizedPath node ''b.md'' @ ''/'' @
                      drop (length (normalizedPath node ''a.md'') + 1)
                        (resolvedTarget node markdownFile occ)) \<and>
              newText e =
                (if \<not> replaceFileExtension occ
                 then slice_0_m3
                        (posix_relative node (posix_dirname node (path markdownFile))
                           (normalizedPath node ''b.md'' @ ''/'' @
                            drop (length (normalizedPath node ''a.md'') + 1)
                              (resolvedTarget node markdownFile occ)))
                 else posix_relative node (posix_dirname node (path markdownFile))
                        (normalizedPath node ''b.md'' @ ''/'' @
                         drop (length (normalizedPath node ''a.md'') + 1)
                           (resolvedTarget node markdownFile occ)))))) \<and>
     (\<forall>e \<in> set repaired. \<exists>markdownFile \<in> set fs. \<exists>occs occ.
        getAllLinks (Some (content markdownFile)) = Inr occs \<and> occ \<in> set occs \<and>
        edit_path e = path markdownFile \<and> edit_range e = targetRange occ \<and>
        (resolvedTarget node markdownFile occ = normalizedPath node ''a.md'' \<or>
         startsWith (resolvedTarget node markdownFile occ)
           (normalizedPath node ''a.md'' @ ''/'')))"
  using repair_covers_every_filtered_document [OF run_self_link run_included]
  by (simp cong: if_cong)

text \<open>The claim as stated gives the moved document no edit of the repair loop. The moved
  document, at \<open>b.md\<close>, links to its own old path: the rebase loop leaves the link alone
  and the repair loop rewrites it.\<close>

theorem moved_document_repaired_counterexample:
  "posix_normalize node ''b.md'' = normalizedPath node ''b.md'' \<and>
   rebaseEdits node (normalizedPath node ''a.md'') (normalizedPath node ''b.md'')
     (Some ''[self](a.md)'') = Inr [] \<and>
   repairEdits node (normalizedPath node ''a.md'') (normalizedPath node ''b.md'')
     [\<lparr>path = ''b.md'', content = ''[self](a.md)''\<rparr>] =
   Inr [\<lparr>edit_path = ''b.md'',
         edit_range = \<lparr>range_start = \<lparr>pos_line = 0, character = 7\<rparr>,
                       range_end = \<lparr>pos_line = 0, character = 11\<rparr>\<rparr>,
         newText = ''b.md'', requiresPathToExist = None\<rparr>] \<and>
   pureGetEdits node (Rename \<lparr>pathBefore = ''a.md'', pathAfter = ''b.md''\<rparr>)
     [\<lparr>path = ''b.md'', content = ''[self](a.md)''\<rparr>] noOptions =
   Inr [\<lparr>edit_path = ''b.md'',
         edit_range = \<lparr>range_start = \<lparr>pos_line = 0, character = 7\<rparr>,
                       range_end = \<lparr>pos_line = 0, character = 11\<rparr>\<rparr>,
         newText = ''b.md'', requiresPathToExist = None\<rparr>]"
  using run_self_link run_self_link_phases by simp

text \<open>
  C7, as amended. For the inline reference links and the double-bracket references,
  the yielded target never ends in a fragment: it is never a non-empty path followed by
  \<^verbatim>\<open>#\<close> and one or more characters other than whitespace and \<^verbatim>\<open>/\<close>. For the
  \<^verbatim>\<open><img src=...>\<close> references no fragment is split off: the yielded target is a run
  of characters other than quotes that ends just before a quote character, single or
  double, so a fragment written before that quote stays in the target.
\<close>

theorem fragment_handling:
  assumes "getMatchingLinks regex fileContent flag = Inr occs" and "occ \<in> set occs"
  shows "(regex = mdLinkRegexGlobal \<or> regex = wikilinkRegex \<longrightarrow>
           \<not> hasTrailingFragment (target occ)) \<and>
         (regex = imgRegex \<longrightarrow>
           (\<exists>c idx raw. fileContent = Some c \<and> occursAt c occ idx raw \<and> list_all notQuote raw \<and>
              idx + length raw < length c \<and> isQuote (c ! (idx + length raw))))"
proof (intro conjI impI)
  assume "regex = mdLinkRegexGlobal \<or> regex = wikilinkRegex"
  then show "\<not> hasTrailingFragment (target occ)"
  proof
    assume r: "regex = mdLinkRegexGlobal"
    show ?thesis
      by (rule scanned_target_has_no_fragment
          [OF assms(1) [unfolded r mdLinkRegexGlobal_def] assms(2)]) simp_all
  next
    assume r: "regex = wikilinkRegex"
    show ?thesis
      by (rule scanned_target_has_no_fragment
          [OF assms(1) [unfolded r wikilinkRegex_def] assms(2)]) simp_all
  qed
next
  assume "regex = imgRegex"
  with img_target_is_attribute_value [of fileContent flag occs occ] assms
  show "\<exists>c idx raw. fileContent = Some c \<and> occursAt c occ idx raw \<and> list_all notQuote raw \<and>
              idx + length raw < length c \<and> isQuote (c ! (idx + length raw))"
    by simp
qed

theorem fragment_handling_witness:
  "\<not> hasTrailingFragment
       (target \<lparr>target = ''b.md'', line = 0, col = 4, replaceFileExtension = True\<rparr>) \<and>
   \<not> hasTrailingFragment
       (target \<lparr>target = ''w'', line = 0, col = 17, replaceFileExtension = False\<rparr>) \<and>
   (\<exists>c idx raw. Some (''<img src='' @ [dquote] @ ''a.png#frag'' @ [dquote] @ ''>'') = Some c \<and>
      occursAt c \<lparr>target = ''a.png#frag'', line = 0, col = 10, replaceFileExtension = True\<rparr> idx raw \<and>
      list_all notQuote raw \<and> idx + length raw < length c \<and> isQuote (c ! (idx + length raw)))"
proof -
  have a: "\<lparr>target = ''b.md'', line = 0, col = 4, replaceFileExtension = True\<rparr>
      \<in> set [\<lparr>target = ''b.md'', line = 0, col = 4, replaceFileExtension = True\<rparr>]"
    by simp
  have b: "\<lparr>target = ''w'', line = 0, col = 17, replaceFileExtension = False\<rparr>
      \<in> set [\<lparr>target = ''w'', line = 0, col = 17, replaceFileExtension = False\<rparr>]"
    by simp
  have c: "\<lparr>target = ''a.png#frag'', line = 0, col = 10, replaceFileExtension = True\<rparr>
      \<in> set [\<lparr>target = ''a.png#frag'', line = 0, col = 10, replaceFileExtension = True\<rparr>]"
    by simp
  from fragment_handling [OF run_fragment_md(1) a] fragment_handling [OF run_fragment_md(2) b]
    fragment_handling [OF run_fragment_img(3) c]
  show ?thesis by simp
qed

text \<open>The claim as stated covers the \<^verbatim>\<open><img>\<close> references: there the fragment stays in
  the target. It also covers the inline link that is a fragment only, whose target is
  the fragment.\<close>

theorem img_fragment_counterexample:
  "getAllLinks (Some (''<img src='' @ [dquote] @ ''a.png#frag'' @ [dquote] @ ''>'')) =
     Inr [\<lparr>target = ''a.png#frag'', line = 0, col = 10, replaceFileExtension = True\<rparr>] \<and>
   hasTrailingFragment ''a.png#frag'' \<and>
   getAllLinks (Some ''[a](#frag)'') =
     Inr [\<lparr>target = ''#frag'', line = 0, col = 4, replaceFileExtension = True\<rparr>]"
  using run_fragment_img(1,2) run_fragment_only by simp

text \<open>
  C4, as amended. For every save event, the heading-rename detector emits a pair
  exactly for each adjacent pair of diff runs where a deletion run is immediately
  followed by an insertion run and the first line of the deletion run and the first
  line of the insertion run both match the heading pattern with identical prefixes;
  the pair carries the two heading texts with the prefixes stripped, and the pairs come
  in the order of the runs.
\<close>

theorem renamedHeadings_detects_first_lines:
  "renamedHeadings diff = renamedHeadings_firstLines diff"
proof (induction diff)
  case Nil
  show ?case by (simp add: renamedHeadings_def List.map_filter_simps)
next
  case (Cons c diff)
  show ?case
  proof (cases diff)
    case Nil
    then show ?thesis by (simp add: renamedHeadings_single)
  next
    case (Cons n rest)
    with Cons.IH show ?thesis
      by (simp add: renamedHeadings_Cons [of c] renamedHeadingAt_0
          del: renamedHeadings_firstLines.simps(1))
        (simp split: option.splits)
  qed
qed

theorem renamedHeadings_detects_first_lines_witness:
  "renamedHeadings_firstLines
     [\<lparr>change_value = ''# A'' @ [newline] @ ''foo'' @ [newline], added = False, removed = True\<rparr>,
      \<lparr>change_value = ''# B'' @ [newline], added = True, removed = False\<rparr>,
      \<lparr>change_value = ''bar'', added = False, removed = False\<rparr>] =
     [\<lparr>oldHeader = ''A'', newHeader = ''B''\<rparr>]"
  using renamedHeadings_detects_first_lines
     [of "[\<lparr>change_value = ''# A'' @ [newline] @ ''foo'' @ [newline], added = False, removed = True\<rparr>,
      \<lparr>change_value = ''# B'' @ [newline], added = True, removed = False\<rparr>,
      \<lparr>change_value = ''bar'', added = False, removed = False\<rparr>]"]
    run_heading_detect(2)
  by simp

text \<open>The claim as stated takes the last line of the deletion run. Saving a text in
  which a heading and the line after it are replaced by a new heading gives a deletion
  run of two lines: the detector emits the pair of the two headings, though the last
  deleted line is no heading.\<close>

theorem last_line_counterexample:
  "diffLines node (''# A'' @ [newline] @ ''foo'' @ [newline] @ ''bar'') (''# B'' @ [newline] @ ''bar'') =
     [\<lparr>change_value = ''# A'' @ [newline] @ ''foo'' @ [newline], added = False, removed = True\<rparr>,
      \<lparr>change_value = ''# B'' @ [newline], added = True, removed = False\<rparr>,
      \<lparr>change_value = ''bar'', added = False, removed = False\<rparr>] \<and>
   renamedHeadings
     [\<lparr>change_value = ''# A'' @ [newline] @ ''foo'' @ [newline], added = False, removed = True\<rparr>,
      \<lparr>change_value = ''# B'' @ [newline], added = True, removed = False\<rparr>,
      \<lparr>change_value = ''bar'', added = False, removed = False\<rparr>] =
     [\<lparr>oldHeader = ''A'', newHeader = ''B''\<rparr>] \<and>
   renamedHeadings_spec
     [\<lparr>change_value = ''# A'' @ [newline] @ ''foo'' @ [newline], added = False, removed = True\<rparr>,
      \<lparr>change_value = ''# B'' @ [newline], added = True, removed = False\<rparr>,
      \<lparr>change_value = ''bar'', added = False, removed = False\<rparr>] = []"
  using run_heading_detect by simp




end
